theory Spec2Isabelle
  imports Complex_Main "HOL-Library.Multiset" "HOL-Library.List_Lexorder" "HOL-Library.Char_ord"
    "HOL-Library.Monad_Syntax" "HOL-Library.Sublist"
begin

section \<open>JavaScript values, products and sort keys\<close>

text \<open>
  The sorter lives at the end of \<^verbatim>\<open>src/scripts/ui-admin.js\<close> (functions \<^verbatim>\<open>merge\<close>,
  \<^verbatim>\<open>mergeSort\<close>, \<^verbatim>\<open>sortByPrice\<close>, \<^verbatim>\<open>sortByName\<close>); the class \<^verbatim>\<open>Product\<close> is in
  \<^verbatim>\<open>src/scripts/products.js\<close>.

  A JavaScript number is a double. Only its order matters to the sorter, so a finite
  double is represented by the rational number it denotes (the two zeros, which compare
  equal, are identified), next to \<open>NaN\<close> and the two infinities.
\<close>

datatype jsnum = NaN | NegInf | Fin rat | PosInf

text \<open>The JavaScript operator \<^verbatim>\<open><=\<close> on numbers: false as soon as one side is \<open>NaN\<close>.\<close>

fun js_le :: "jsnum \<Rightarrow> jsnum \<Rightarrow> bool" where
  "js_le NaN _ = False"
| "js_le _ NaN = False"
| "js_le NegInf _ = True"
| "js_le _ PosInf = True"
| "js_le (Fin a) (Fin b) = (a \<le> b)"
| "js_le _ _ = False"

text \<open>
  The primitive values a field of a product can hold: \<^verbatim>\<open>undefined\<close>, \<^verbatim>\<open>null\<close>, a boolean,
  a number or a string. Symbols and objects are left out: they are the values on which
  the conversion to a string inside \<^verbatim>\<open>parseFloat\<close> and \<^verbatim>\<open>localeCompare\<close> can itself throw, and
  nothing below speaks about them.
\<close>

datatype jsval = JUndefined | JNull | JBool bool | JNum jsnum | JStr string

text \<open>
  \<^verbatim>\<open>class Product { constructor(id, name, price, image) {...} }\<close>: four untyped fields
  (\<open>id\<close> and \<open>image\<close> carry a prime, the plain names being HOL constants).
\<close>

record Product =
  id' :: jsval
  name :: jsval
  price :: jsval
  image' :: jsval

text \<open>The parameter \<^verbatim>\<open>sortBy\<close>: the property to sort by, \<^verbatim>\<open>'price'\<close> or \<^verbatim>\<open>'name'\<close>.\<close>

datatype sortKey = Price | Name

text \<open>\<^verbatim>\<open>p[sortBy]\<close>\<close>

fun getProp :: "Product \<Rightarrow> sortKey \<Rightarrow> jsval" where
  "getProp p Price = price p"
| "getProp p Name = name p"

text \<open>The only error the sorter's code can run into: a method call on a value that has no
  such method (\<^verbatim>\<open>leftValue.localeCompare\<close> on a value that is not a string).\<close>

datatype error = TypeError

section \<open>The two built-in functions the sorter calls\<close>

text \<open>
  \<^verbatim>\<open>parseFloat(v)\<close> converts \<open>v\<close> to a string and reads the longest prefix that is a
  decimal literal, \<open>NaN\<close> if there is none. For \<^verbatim>\<open>undefined\<close>, \<^verbatim>\<open>null\<close> and the
  booleans the string has no such prefix; for a number the string reads back as the number.
  What a string reads as is the platform's business: the reader of strings is the parameter
  \<open>readDecimal\<close> of everything that follows.

  \<^verbatim>\<open>s.localeCompare(v)\<close> of the platform is the parameter \<open>localeCompare\<close>: it takes a
  string and any value and returns a negative number, zero or a positive number.
\<close>

definition parseFloat :: "(string \<Rightarrow> jsnum) \<Rightarrow> jsval \<Rightarrow> jsnum" where
  "parseFloat readDecimal v =
     (case v of JNum n \<Rightarrow> n | JStr s \<Rightarrow> readDecimal s | _ \<Rightarrow> NaN)"

section \<open>merge\<close>

text \<open>The three local variables of \<^verbatim>\<open>merge\<close>.\<close>

record merge_state =
  result :: "Product list"
  leftIndex :: nat
  rightIndex :: nat

text \<open>The elements of \<open>left\<close> and \<open>right\<close> no loop has consumed yet.\<close>

definition unconsumed :: "Product list \<Rightarrow> Product list \<Rightarrow> merge_state \<Rightarrow> nat" where
  "unconsumed left right st = (length left - leftIndex st) + (length right - rightIndex st)"

text \<open>
  The comparison of the two current elements (the first eight lines of the first loop's
  body): for \<^verbatim>\<open>'price'\<close> the parsed prices under \<^verbatim>\<open><=\<close>, never zero; otherwise
  \<^verbatim>\<open>leftValue.localeCompare(rightValue)\<close>, which throws when the left value is not a string.
  On the primitive values of \<open>jsval\<close> the call of \<^verbatim>\<open>parseFloat\<close> does not throw, so the
  branch for \<^verbatim>\<open>'price'\<close> has no error.
\<close>

definition comparison ::
  "(string \<Rightarrow> jsnum) \<Rightarrow> (string \<Rightarrow> jsval \<Rightarrow> int) \<Rightarrow> sortKey \<Rightarrow> Product \<Rightarrow> Product \<Rightarrow> error + int" where
  "comparison readDecimal localeCompare sortBy l r =
     (if sortBy = Price then
        (let leftValue = parseFloat readDecimal (getProp l sortBy);
             rightValue = parseFloat readDecimal (getProp r sortBy)
         in Inr (if js_le leftValue rightValue then - 1 else 1))
      else
        (let leftValue = getProp l sortBy;
             rightValue = getProp r sortBy
         in case leftValue of
              JStr s \<Rightarrow> Inr (localeCompare s rightValue)
            | _ \<Rightarrow> Inl TypeError))"

text \<open>
  The body of the first loop. It runs under \<^verbatim>\<open>leftIndex < left.length && rightIndex <
  right.length\<close>, so both reads are in range.
\<close>

definition merge_body ::
  "(string \<Rightarrow> jsnum) \<Rightarrow> (string \<Rightarrow> jsval \<Rightarrow> int) \<Rightarrow> Product list \<Rightarrow> Product list \<Rightarrow> sortKey
     \<Rightarrow> merge_state \<Rightarrow> error + merge_state" where
  "merge_body readDecimal localeCompare left right sortBy st =
     (case comparison readDecimal localeCompare sortBy
             (left ! leftIndex st) (right ! rightIndex st) of
        Inl e \<Rightarrow> Inl e
      | Inr c \<Rightarrow>
          if c \<le> 0 then
            Inr (st\<lparr>result := result st @ [left ! leftIndex st], leftIndex := leftIndex st + 1\<rparr>)
          else
            Inr (st\<lparr>result := result st @ [right ! rightIndex st],
                    rightIndex := rightIndex st + 1\<rparr>))"

text \<open>\<^verbatim>\<open>while (leftIndex < left.length && rightIndex < right.length) {...}\<close>\<close>

function merge_while_both ::
  "(string \<Rightarrow> jsnum) \<Rightarrow> (string \<Rightarrow> jsval \<Rightarrow> int) \<Rightarrow> Product list \<Rightarrow> Product list \<Rightarrow> sortKey
     \<Rightarrow> merge_state \<Rightarrow> error + merge_state" where
  "merge_while_both readDecimal localeCompare left right sortBy st =
     (if leftIndex st < length left \<and> rightIndex st < length right then
        (case merge_body readDecimal localeCompare left right sortBy st of
           Inl e \<Rightarrow> Inl e
         | Inr st' \<Rightarrow> merge_while_both readDecimal localeCompare left right sortBy st')
      else Inr st)"
  by pat_completeness auto
termination
  by (relation "measure (\<lambda>(rd, lc, left, right, sortBy, st). unconsumed left right st)")
     (auto simp: merge_body_def unconsumed_def split: if_splits sum.splits)

text \<open>\<^verbatim>\<open>while (leftIndex < left.length) { result.push(left[leftIndex]); leftIndex++; }\<close>\<close>

function merge_while_left :: "Product list \<Rightarrow> merge_state \<Rightarrow> merge_state" where
  "merge_while_left left st =
     (if leftIndex st < length left then
        merge_while_left left
          (st\<lparr>result := result st @ [left ! leftIndex st], leftIndex := leftIndex st + 1\<rparr>)
      else st)"
  by pat_completeness auto
termination
  by (relation "measure (\<lambda>(left, st). length left - leftIndex st)") auto

text \<open>\<^verbatim>\<open>while (rightIndex < right.length) { result.push(right[rightIndex]); rightIndex++; }\<close>\<close>

function merge_while_right :: "Product list \<Rightarrow> merge_state \<Rightarrow> merge_state" where
  "merge_while_right right st =
     (if rightIndex st < length right then
        merge_while_right right
          (st\<lparr>result := result st @ [right ! rightIndex st], rightIndex := rightIndex st + 1\<rparr>)
      else st)"
  by pat_completeness auto
termination
  by (relation "measure (\<lambda>(right, st). length right - rightIndex st)") auto

definition merge ::
  "(string \<Rightarrow> jsnum) \<Rightarrow> (string \<Rightarrow> jsval \<Rightarrow> int) \<Rightarrow> Product list \<Rightarrow> Product list \<Rightarrow> sortKey
     \<Rightarrow> error + Product list" where
  "merge readDecimal localeCompare left right sortBy =
     (case merge_while_both readDecimal localeCompare left right sortBy
             \<lparr>result = [], leftIndex = 0, rightIndex = 0\<rparr> of
        Inl e \<Rightarrow> Inl e
      | Inr st \<Rightarrow> Inr (result (merge_while_right right (merge_while_left left st))))"

section \<open>mergeSort\<close>

text \<open>\<^verbatim>\<open>items.slice(start, stop)\<close> for indices that are not negative; \<^verbatim>\<open>items.slice(start)\<close>
  is \<^verbatim>\<open>items.slice(start, items.length)\<close>.\<close>

definition slice :: "nat \<Rightarrow> nat \<Rightarrow> 'a list \<Rightarrow> 'a list" where
  "slice start stop items = take (stop - start) (drop start items)"

function mergeSort ::
  "(string \<Rightarrow> jsnum) \<Rightarrow> (string \<Rightarrow> jsval \<Rightarrow> int) \<Rightarrow> Product list \<Rightarrow> sortKey
     \<Rightarrow> error + Product list" where
  "mergeSort readDecimal localeCompare items sortBy =
     (if length items \<le> 1 then Inr items
      else
        (let middle = length items div 2;
             left = slice 0 middle items;
             right = slice middle (length items) items
         in case mergeSort readDecimal localeCompare left sortBy of
              Inl e \<Rightarrow> Inl e
            | Inr sortedLeft \<Rightarrow>
                (case mergeSort readDecimal localeCompare right sortBy of
                   Inl e \<Rightarrow> Inl e
                 | Inr sortedRight \<Rightarrow>
                     merge readDecimal localeCompare sortedLeft sortedRight sortBy)))"
  by pat_completeness auto
termination
  by (relation "measure (\<lambda>(rd, lc, items, sortBy). length items)") (auto simp: slice_def)

section \<open>sortByPrice and sortByName\<close>

text \<open>
  What a caller can pass as \<^verbatim>\<open>products\<close>: an array, or anything else. The elements of an
  array are products ("Array of Product objects", says the comment of both entry points),
  with any primitive value in any field.
\<close>

datatype argument = NotAnArray | AnArray "Product list"

text \<open>\<^verbatim>\<open>new Product(p.id, p.name, p.price, p.image)\<close>\<close>

definition newProduct :: "jsval \<Rightarrow> jsval \<Rightarrow> jsval \<Rightarrow> jsval \<Rightarrow> Product" where
  "newProduct i n p img = \<lparr>id' = i, name = n, price = p, image' = img\<rparr>"

definition sortByPrice ::
  "(string \<Rightarrow> jsnum) \<Rightarrow> (string \<Rightarrow> jsval \<Rightarrow> int) \<Rightarrow> argument \<Rightarrow> error + Product list" where
  "sortByPrice readDecimal localeCompare products =
     (case products of
        NotAnArray \<Rightarrow> Inr []
      | AnArray ps \<Rightarrow>
          if length ps = 0 then Inr []
          else
            (let productsCopy = map (\<lambda>p. newProduct (id' p) (name p) (price p) (image' p)) ps
             in mergeSort readDecimal localeCompare productsCopy Price))"

definition sortByName ::
  "(string \<Rightarrow> jsnum) \<Rightarrow> (string \<Rightarrow> jsval \<Rightarrow> int) \<Rightarrow> argument \<Rightarrow> error + Product list" where
  "sortByName readDecimal localeCompare products =
     (case products of
        NotAnArray \<Rightarrow> Inr []
      | AnArray ps \<Rightarrow>
          if length ps = 0 then Inr []
          else
            (let productsCopy = map (\<lambda>p. newProduct (id' p) (name p) (price p) (image' p)) ps
             in mergeSort readDecimal localeCompare productsCopy Name))"

section \<open>The same functions on a heap\<close>

text \<open>
  Whether the sorter changes its input cannot be read off functions on values. Here the
  arrays and the products live in a heap: a list of cells whose indices are the addresses;
  \<^verbatim>\<open>new Product(...)\<close>, an array literal, \<^verbatim>\<open>slice\<close> and \<^verbatim>\<open>map\<close> allocate at the end of the
  heap, and \<^verbatim>\<open>result.push(x)\<close> writes to the cell of \<open>result\<close>. An array holds the addresses
  of its elements, which are objects. A loop that reads its bounds from the heap can run for ever in
  principle, so the loops and \<^verbatim>\<open>mergeSort\<close> are partial functions: \<open>None\<close> is "does not
  return". The suffix \<open>_h\<close> marks the heap version of a function.
\<close>

type_synonym addr = nat

datatype cell = Obj Product | Arr "addr list"

type_synonym heap = "cell list"

text \<open>A new cell gets the next address.\<close>

definition alloc :: "heap \<Rightarrow> cell \<Rightarrow> addr \<times> heap" where
  "alloc h c = (length h, h @ [c])"

text \<open>The elements of the array at an address (\<^verbatim>\<open>a[i]\<close> is \<open>elems h a ! i\<close>, \<^verbatim>\<open>a.length\<close> is its
  length).\<close>

definition elems :: "heap \<Rightarrow> addr \<Rightarrow> addr list" where
  "elems h a = (case h ! a of Arr es \<Rightarrow> es | Obj p \<Rightarrow> [])"

text \<open>The fields of the object at an address; read from an array, the four fields are
  \<^verbatim>\<open>undefined\<close>.\<close>

definition objectAt :: "heap \<Rightarrow> addr \<Rightarrow> Product" where
  "objectAt h a =
     (case h ! a of
        Obj p \<Rightarrow> p
      | Arr es \<Rightarrow> \<lparr>id' = JUndefined, name = JUndefined, price = JUndefined, image' = JUndefined\<rparr>)"

text \<open>\<^verbatim>\<open>a.push(v)\<close>\<close>

definition push :: "heap \<Rightarrow> addr \<Rightarrow> addr \<Rightarrow> heap" where
  "push h a v = h[a := Arr (elems h a @ [v])]"

text \<open>The local variables of \<^verbatim>\<open>merge\<close>, \<open>result\<close> now an address, and the heap.\<close>

record merge_state_h =
  store :: heap
  resultRef :: addr
  leftIdx :: nat
  rightIdx :: nat

definition merge_body_h ::
  "(string \<Rightarrow> jsnum) \<Rightarrow> (string \<Rightarrow> jsval \<Rightarrow> int) \<Rightarrow> addr \<Rightarrow> addr \<Rightarrow> sortKey
     \<Rightarrow> merge_state_h \<Rightarrow> error + merge_state_h" where
  "merge_body_h readDecimal localeCompare left right sortBy s =
     (let l = elems (store s) left ! leftIdx s;
          r = elems (store s) right ! rightIdx s
      in case comparison readDecimal localeCompare sortBy
                (objectAt (store s) l) (objectAt (store s) r) of
           Inl e \<Rightarrow> Inl e
         | Inr c \<Rightarrow>
             if c \<le> 0 then
               Inr (s\<lparr>store := push (store s) (resultRef s) l, leftIdx := leftIdx s + 1\<rparr>)
             else
               Inr (s\<lparr>store := push (store s) (resultRef s) r, rightIdx := rightIdx s + 1\<rparr>))"

partial_function (option) merge_while_both_h ::
  "(string \<Rightarrow> jsnum) \<Rightarrow> (string \<Rightarrow> jsval \<Rightarrow> int) \<Rightarrow> addr \<Rightarrow> addr \<Rightarrow> sortKey
     \<Rightarrow> merge_state_h \<Rightarrow> (error + merge_state_h) option" where
  "merge_while_both_h readDecimal localeCompare left right sortBy s =
     (if leftIdx s < length (elems (store s) left) \<and> rightIdx s < length (elems (store s) right)
      then
        (case merge_body_h readDecimal localeCompare left right sortBy s of
           Inl e \<Rightarrow> Some (Inl e)
         | Inr s' \<Rightarrow> merge_while_both_h readDecimal localeCompare left right sortBy s')
      else Some (Inr s))"

declare merge_while_both_h.simps [code]

partial_function (option) merge_while_left_h :: "addr \<Rightarrow> merge_state_h \<Rightarrow> merge_state_h option" where
  "merge_while_left_h left s =
     (if leftIdx s < length (elems (store s) left) then
        merge_while_left_h left
          (s\<lparr>store := push (store s) (resultRef s) (elems (store s) left ! leftIdx s),
             leftIdx := leftIdx s + 1\<rparr>)
      else Some s)"

declare merge_while_left_h.simps [code]

partial_function (option) merge_while_right_h :: "addr \<Rightarrow> merge_state_h \<Rightarrow> merge_state_h option" where
  "merge_while_right_h right s =
     (if rightIdx s < length (elems (store s) right) then
        merge_while_right_h right
          (s\<lparr>store := push (store s) (resultRef s) (elems (store s) right ! rightIdx s),
             rightIdx := rightIdx s + 1\<rparr>)
      else Some s)"

declare merge_while_right_h.simps [code]

text \<open>\<^verbatim>\<open>let result = []\<close> allocates; returning, \<^verbatim>\<open>merge\<close> hands back the address of
  \<open>result\<close>. An exception leaves no result and no heap to look at.\<close>

definition merge_h ::
  "(string \<Rightarrow> jsnum) \<Rightarrow> (string \<Rightarrow> jsval \<Rightarrow> int) \<Rightarrow> heap \<Rightarrow> addr \<Rightarrow> addr \<Rightarrow> sortKey
     \<Rightarrow> (error + addr \<times> heap) option" where
  "merge_h readDecimal localeCompare h left right sortBy =
     (let (result, h1) = alloc h (Arr [])
      in do {
        r \<leftarrow> merge_while_both_h readDecimal localeCompare left right sortBy
               \<lparr>store = h1, resultRef = result, leftIdx = 0, rightIdx = 0\<rparr>;
        case r of
          Inl e \<Rightarrow> Some (Inl e)
        | Inr s1 \<Rightarrow> do {
            s2 \<leftarrow> merge_while_left_h left s1;
            s3 \<leftarrow> merge_while_right_h right s2;
            Some (Inr (resultRef s3, store s3))
          }
      })"

partial_function (option) mergeSort_h ::
  "(string \<Rightarrow> jsnum) \<Rightarrow> (string \<Rightarrow> jsval \<Rightarrow> int) \<Rightarrow> heap \<Rightarrow> addr \<Rightarrow> sortKey
     \<Rightarrow> (error + addr \<times> heap) option" where
  "mergeSort_h readDecimal localeCompare h items sortBy =
     (if length (elems h items) \<le> 1 then Some (Inr (items, h))
      else
        (let middle = length (elems h items) div 2;
             (left, h1) = alloc h (Arr (slice 0 middle (elems h items)));
             (right, h2) = alloc h1 (Arr (slice middle (length (elems h1 items)) (elems h1 items)))
         in do {
           r1 \<leftarrow> mergeSort_h readDecimal localeCompare h2 left sortBy;
           case r1 of
             Inl e \<Rightarrow> Some (Inl e)
           | Inr (sortedLeft, h3) \<Rightarrow> do {
               r2 \<leftarrow> mergeSort_h readDecimal localeCompare h3 right sortBy;
               case r2 of
                 Inl e \<Rightarrow> Some (Inl e)
               | Inr (sortedRight, h4) \<Rightarrow>
                   merge_h readDecimal localeCompare h4 sortedLeft sortedRight sortBy
             }
         }))"

declare mergeSort_h.simps [code]

text \<open>\<^verbatim>\<open>products.map(p => new Product(p.id, p.name, p.price, p.image))\<close>: one new object
  for each element, then the new array of their addresses.\<close>

fun copy_each :: "heap \<Rightarrow> addr list \<Rightarrow> addr list \<times> heap" where
  "copy_each h [] = ([], h)"
| "copy_each h (p # ps) =
     (let (a, h1) = alloc h (Obj (newProduct (id' (objectAt h p)) (name (objectAt h p))
                                   (price (objectAt h p)) (image' (objectAt h p))));
          (as, h2) = copy_each h1 ps
      in (a # as, h2))"

definition map_copy :: "heap \<Rightarrow> addr \<Rightarrow> addr \<times> heap" where
  "map_copy h products = (let (as, h1) = copy_each h (elems h products) in alloc h1 (Arr as))"

text \<open>What a caller can pass as \<^verbatim>\<open>products\<close>: a primitive value, or a reference to an object
  or an array.\<close>

datatype argument_h = Primitive jsval | Reference addr

fun isArray :: "heap \<Rightarrow> argument_h \<Rightarrow> bool" where
  "isArray h (Primitive v) = False"
| "isArray h (Reference a) = (case h ! a of Arr es \<Rightarrow> True | Obj p \<Rightarrow> False)"

definition sortByPrice_h ::
  "(string \<Rightarrow> jsnum) \<Rightarrow> (string \<Rightarrow> jsval \<Rightarrow> int) \<Rightarrow> heap \<Rightarrow> argument_h
     \<Rightarrow> (error + addr \<times> heap) option" where
  "sortByPrice_h readDecimal localeCompare h products =
     (case products of
        Primitive v \<Rightarrow> Some (Inr (alloc h (Arr [])))
      | Reference a \<Rightarrow>
          if \<not> isArray h products \<or> length (elems h a) = 0 then Some (Inr (alloc h (Arr [])))
          else
            (let (productsCopy, h1) = map_copy h a
             in mergeSort_h readDecimal localeCompare h1 productsCopy Price))"

definition sortByName_h ::
  "(string \<Rightarrow> jsnum) \<Rightarrow> (string \<Rightarrow> jsval \<Rightarrow> int) \<Rightarrow> heap \<Rightarrow> argument_h
     \<Rightarrow> (error + addr \<times> heap) option" where
  "sortByName_h readDecimal localeCompare h products =
     (case products of
        Primitive v \<Rightarrow> Some (Inr (alloc h (Arr [])))
      | Reference a \<Rightarrow>
          if \<not> isArray h products \<or> length (elems h a) = 0 then Some (Inr (alloc h (Arr [])))
          else
            (let (productsCopy, h1) = map_copy h a
             in mergeSort_h readDecimal localeCompare h1 productsCopy Name))"

text \<open>An address holds a well-formed array: it is allocated, the cell is an array, and every
  element is an allocated address.\<close>

definition valid_array :: "heap \<Rightarrow> addr \<Rightarrow> bool" where
  "valid_array h a \<longleftrightarrow>
     a < length h \<and>
     (case h ! a of Arr es \<Rightarrow> list_all (\<lambda>e. e < length h) es | Obj p \<Rightarrow> False)"

text \<open>The products an array holds, as values.\<close>

definition objects :: "heap \<Rightarrow> addr \<Rightarrow> Product list" where
  "objects h a = map (objectAt h) (elems h a)"

section \<open>Notions the properties are stated with\<close>

text \<open>
  \<open>key(a) <= key(b)\<close> under the chosen comparison. It is the condition under which the
  first loop of \<^verbatim>\<open>merge\<close> pushes the left element: the parsed prices are in \<^verbatim>\<open><=\<close>, or
  \<^verbatim>\<open>localeCompare\<close> of the two names is not positive.
\<close>

fun leq ::
  "(string \<Rightarrow> jsnum) \<Rightarrow> (string \<Rightarrow> jsval \<Rightarrow> int) \<Rightarrow> sortKey \<Rightarrow> Product \<Rightarrow> Product \<Rightarrow> bool" where
  "leq rd lc Price a b = js_le (parseFloat rd (price a)) (parseFloat rd (price b))"
| "leq rd lc Name a b = (case name a of JStr s \<Rightarrow> lc s (name b) \<le> 0 | _ \<Rightarrow> False)"

text \<open>A well-formed key: a price that parses to a number, a name that is a string.\<close>

fun wellFormed :: "(string \<Rightarrow> jsnum) \<Rightarrow> sortKey \<Rightarrow> Product \<Rightarrow> bool" where
  "wellFormed rd Price p = (parseFloat rd (price p) \<noteq> NaN)"
| "wellFormed rd Name p = (case name p of JStr s \<Rightarrow> True | _ \<Rightarrow> False)"

text \<open>
  What a comparison of strings has to satisfy to be an ordering at all: swapping the
  arguments flips the sign, and "not after" is transitive. The platform's collation is
  such a comparison.
\<close>

definition consistent :: "(string \<Rightarrow> jsval \<Rightarrow> int) \<Rightarrow> bool" where
  "consistent lc \<longleftrightarrow>
     (\<forall>a b. sgn (lc a (JStr b)) = - sgn (lc b (JStr a))) \<and>
     (\<forall>a b c. lc a (JStr b) \<le> 0 \<longrightarrow> lc b (JStr c) \<le> 0 \<longrightarrow> lc a (JStr c) \<le> 0)"

text \<open>Two key values compare equal: the parsed prices are the same number, or
  \<^verbatim>\<open>localeCompare\<close> of the names is zero.\<close>

fun sameKey ::
  "(string \<Rightarrow> jsnum) \<Rightarrow> (string \<Rightarrow> jsval \<Rightarrow> int) \<Rightarrow> sortKey \<Rightarrow> Product \<Rightarrow> Product \<Rightarrow> bool" where
  "sameKey rd lc Price a b =
     (parseFloat rd (price a) \<noteq> NaN \<and> parseFloat rd (price a) = parseFloat rd (price b))"
| "sameKey rd lc Name a b = (case name a of JStr s \<Rightarrow> lc s (name b) = 0 | _ \<Rightarrow> False)"

text \<open>
  The list functions the loops are compared with in the proofs: a merge that takes the
  head of the first list whenever \<open>takeLeft\<close> holds of the two heads, and the sort that
  halves at \<open>length div 2\<close>.
\<close>

fun merge_by :: "('a \<Rightarrow> 'a \<Rightarrow> bool) \<Rightarrow> 'a list \<Rightarrow> 'a list \<Rightarrow> 'a list" where
  "merge_by takeLeft [] bs = bs"
| "merge_by takeLeft as [] = as"
| "merge_by takeLeft (a # as) (b # bs) =
     (if takeLeft a b then a # merge_by takeLeft as (b # bs)
      else b # merge_by takeLeft (a # as) bs)"

function sort_by :: "('a \<Rightarrow> 'a \<Rightarrow> bool) \<Rightarrow> 'a list \<Rightarrow> 'a list" where
  "sort_by takeLeft items =
     (if length items \<le> 1 then items
      else merge_by takeLeft (sort_by takeLeft (take (length items div 2) items))
                             (sort_by takeLeft (drop (length items div 2) items)))"
  by pat_completeness auto
termination
  by (relation "measure (\<lambda>(takeLeft, items). length items)") auto

section \<open>The reference algorithm of the specification\<close>

text \<open>
  This section follows the words of the specification (4.1, "Algorithm" and "Key comparison
  semantics"), not the code. The comparison of two keys that the specification leaves to
  the platform (reading a decimal number, the locale's order of texts) is the same
  parameter as in the code. One record is the lesser of two when its price is the smaller
  number, or when its name comes first in the order of texts.
\<close>

text \<open>The JavaScript operator \<^verbatim>\<open><\<close> on numbers.\<close>

fun js_lt :: "jsnum \<Rightarrow> jsnum \<Rightarrow> bool" where
  "js_lt NaN _ = False"
| "js_lt _ NaN = False"
| "js_lt PosInf _ = False"
| "js_lt _ NegInf = False"
| "js_lt NegInf _ = True"
| "js_lt _ PosInf = True"
| "js_lt (Fin a) (Fin b) = (a < b)"

fun spec_lesser ::
  "(string \<Rightarrow> jsnum) \<Rightarrow> (string \<Rightarrow> jsval \<Rightarrow> int) \<Rightarrow> sortKey \<Rightarrow> Product \<Rightarrow> Product \<Rightarrow> bool" where
  "spec_lesser rd lc Price a b = js_lt (parseFloat rd (price a)) (parseFloat rd (price b))"
| "spec_lesser rd lc Name a b = (case name a of JStr s \<Rightarrow> lc s (name b) < 0 | _ \<Rightarrow> False)"

text \<open>
  Step 4: "repeatedly compare the current head of each half under the chosen key and
  append the lesser (or, on a tie, the left-hand element). When one half is exhausted,
  append the remainder of the other half in its existing order."
\<close>

fun spec_merge :: "('a \<Rightarrow> 'a \<Rightarrow> bool) \<Rightarrow> 'a list \<Rightarrow> 'a list \<Rightarrow> 'a list" where
  "spec_merge lesser [] rest = rest"
| "spec_merge lesser rest [] = rest"
| "spec_merge lesser (l # ls) (r # rs) =
     (if lesser l r then l # spec_merge lesser ls (r # rs)
      else if lesser r l then r # spec_merge lesser (l # ls) rs
      else l # spec_merge lesser ls (r # rs))"

text \<open>
  Steps 1 to 3: a sequence of length at most one is returned unchanged; otherwise it is
  split at \<open>floor(n/2)\<close> into the first half and the remainder, each half is sorted with
  the same key, and the two are merged.
\<close>

function spec_sort :: "('a \<Rightarrow> 'a \<Rightarrow> bool) \<Rightarrow> 'a list \<Rightarrow> 'a list" where
  "spec_sort lesser records =
     (let n = length records in
      if n \<le> 1 then records
      else spec_merge lesser (spec_sort lesser (take (n div 2) records))
                             (spec_sort lesser (drop (n div 2) records)))"
  by pat_completeness auto
termination
  by (relation "measure (\<lambda>(lesser, records). length records)") auto

section \<open>The catalogue and a comparison of strings for the examples\<close>

text \<open>\<^verbatim>\<open>defaultProducts\<close> of \<^verbatim>\<open>src/scripts/products.js\<close>.\<close>

definition defaultProducts :: "Product list" where
  "defaultProducts =
     [newProduct (JNum (Fin 1)) (JStr ''Kissan Fresh Tomato Ketchup'') (JNum (Fin 215)) (JStr ''assets/1.jpg''),
      newProduct (JNum (Fin 2)) (JStr ''Del Monte Tomato Ketchup'') (JNum (Fin 75)) (JStr ''assets/2.jpg''),
      newProduct (JNum (Fin 3)) (JStr ''Veeba Truly Tomato Ketchup'') (JNum (Fin 140)) (JStr ''assets/3.jpg''),
      newProduct (JNum (Fin 4)) (JStr ''Tata Salt'') (JNum (Fin 25)) (JStr ''assets/4.jpg''),
      newProduct (JNum (Fin 5)) (JStr ''Aashirvaad Iodized Salt'') (JNum (Fin 30)) (JStr ''assets/5.jpg''),
      newProduct (JNum (Fin 6)) (JStr ''Aashirvaad Himalayan Pink Salt'') (JNum (Fin 106)) (JStr ''assets/6.jpg''),
      newProduct (JNum (Fin 7)) (JStr ''Fortune oil '') (JNum (Fin 650)) (JStr ''assets/7.jpg''),
      newProduct (JNum (Fin 8)) (JStr ''Amami oil'') (JNum (Fin 208)) (JStr ''assets/8.jpg''),
      newProduct (JNum (Fin 9)) (JStr ''Saffola oil'') (JNum (Fin 1072)) (JStr ''assets/9.jpg'')]"

text \<open>
  The examples need one platform to run on. Its reader of strings reads nothing (every
  string is \<open>NaN\<close>, as \<^verbatim>\<open>parseFloat("abc")\<close> is), and its comparison of strings is the
  lexicographic order of the characters. Asked to compare a string with a value that is
  not a string, which no example does, it answers 0.
\<close>

definition readNothing :: "string \<Rightarrow> jsnum" where
  "readNothing s = NaN"

definition charCompare :: "string \<Rightarrow> jsval \<Rightarrow> int" where
  "charCompare a v =
     (case v of JStr b \<Rightarrow> (if a < b then - 1 else if a = b then 0 else 1) | _ \<Rightarrow> 0)"

text \<open>
  Inputs of the examples: three products of which the first and the last have the same
  name; four products of which the second has no price (\<^verbatim>\<open>new Product(2, "b")\<close>) and
  the first and the last cost the same; and the record \<^verbatim>\<open>{price: "abc"}\<close>, whose other
  fields are missing.
\<close>

definition sameNames :: "Product list" where
  "sameNames =
     [newProduct (JNum (Fin 1)) (JStr ''Salt'') (JNum (Fin 10)) JUndefined,
      newProduct (JNum (Fin 2)) (JStr ''Oil'') (JNum (Fin 20)) JUndefined,
      newProduct (JNum (Fin 3)) (JStr ''Salt'') (JNum (Fin 30)) JUndefined]"

definition unpriced :: "Product list" where
  "unpriced =
     [newProduct (JNum (Fin 1)) (JStr ''a'') (JNum (Fin 1)) JUndefined,
      newProduct (JNum (Fin 2)) (JStr ''b'') JUndefined JUndefined,
      newProduct (JNum (Fin 3)) (JStr ''c'') (JNum (Fin 0)) JUndefined,
      newProduct (JNum (Fin 4)) (JStr ''d'') (JNum (Fin 1)) JUndefined]"

definition abcProduct :: Product where
  "abcProduct = newProduct JUndefined JUndefined (JStr ''abc'') JUndefined"

text \<open>A heap for the examples: the first three products of the catalogue, and at address 3
  the array of them.\<close>

definition exampleHeap :: heap where
  "exampleHeap =
     [Obj (defaultProducts ! 0), Obj (defaultProducts ! 1), Obj (defaultProducts ! 2),
      Arr [0, 1, 2]]"

section \<open>The loops of merge as functions on lists\<close>

declare merge_while_both.simps [simp del] merge_while_left.simps [simp del]
  merge_while_right.simps [simp del] mergeSort.simps [simp del] sort_by.simps [simp del]

lemma merge_while_left_eq:
  "leftIndex st \<le> length left \<Longrightarrow>
   merge_while_left left st =
     st\<lparr>result := result st @ drop (leftIndex st) left, leftIndex := length left\<rparr>"
proof (induction left st rule: merge_while_left.induct)
  case (1 left st)
  show ?case
  proof (cases "leftIndex st < length left")
    case True
    then show ?thesis
      using "1.IH" by (subst merge_while_left.simps) (simp add: Cons_nth_drop_Suc)
  next
    case False
    with "1.prems" show ?thesis
      by (subst merge_while_left.simps) simp
  qed
qed

lemma merge_while_right_eq:
  "rightIndex st \<le> length right \<Longrightarrow>
   merge_while_right right st =
     st\<lparr>result := result st @ drop (rightIndex st) right, rightIndex := length right\<rparr>"
proof (induction right st rule: merge_while_right.induct)
  case (1 right st)
  show ?case
  proof (cases "rightIndex st < length right")
    case True
    then show ?thesis
      using "1.IH" by (subst merge_while_right.simps) (simp add: Cons_nth_drop_Suc)
  next
    case False
    with "1.prems" show ?thesis
      by (subst merge_while_right.simps) simp
  qed
qed

lemma merge_body_leq:
  assumes "sortBy = Name \<longrightarrow> wellFormed rd Name (left ! leftIndex st)"
  shows "merge_body rd lc left right sortBy st =
     Inr (if leq rd lc sortBy (left ! leftIndex st) (right ! rightIndex st)
          then st\<lparr>result := result st @ [left ! leftIndex st], leftIndex := leftIndex st + 1\<rparr>
          else st\<lparr>result := result st @ [right ! rightIndex st], rightIndex := rightIndex st + 1\<rparr>)"
  using assms
  by (cases sortBy) (auto simp: merge_body_def comparison_def Let_def split: jsval.splits)

lemma merge_body_cases:
  assumes "merge_body rd lc left right sortBy st = Inr st'"
  shows "st' = st\<lparr>result := result st @ [left ! leftIndex st], leftIndex := leftIndex st + 1\<rparr>
       \<or> st' = st\<lparr>result := result st @ [right ! rightIndex st], rightIndex := rightIndex st + 1\<rparr>"
  using assms by (auto simp: merge_body_def split: sum.splits if_splits)

lemma merge_body_error:
  assumes "merge_body rd lc left right sortBy st = Inl e"
  shows "sortBy = Name \<and> \<not> wellFormed rd Name (left ! leftIndex st)"
  using assms
  by (cases sortBy)
     (auto simp: merge_body_def comparison_def Let_def split: jsval.splits if_splits sum.splits)


lemma merge_by_drop:
  assumes "i < length xs" "j < length ys"
  shows "merge_by P (drop i xs) (drop j ys) =
     (if P (xs ! i) (ys ! j) then xs ! i # merge_by P (drop (Suc i) xs) (drop j ys)
      else ys ! j # merge_by P (drop i xs) (drop (Suc j) ys))"
proof -
  have dx: "xs ! i # drop (Suc i) xs = drop i xs" and dy: "ys ! j # drop (Suc j) ys = drop j ys"
    using assms by (simp_all add: Cons_nth_drop_Suc)
  have "merge_by P (xs ! i # drop (Suc i) xs) (ys ! j # drop (Suc j) ys) =
     (if P (xs ! i) (ys ! j) then xs ! i # merge_by P (drop (Suc i) xs) (ys ! j # drop (Suc j) ys)
      else ys ! j # merge_by P (xs ! i # drop (Suc i) xs) (drop (Suc j) ys))"
    by (simp only: merge_by.simps)
  then show ?thesis by (simp only: dx dy)
qed

lemma merge_while_both_merge_by:
  "sortBy = Name \<longrightarrow> (\<forall>x\<in>set left. wellFormed rd Name x) \<Longrightarrow>
   leftIndex st \<le> length left \<Longrightarrow> rightIndex st \<le> length right \<Longrightarrow>
     \<exists>st'. merge_while_both rd lc left right sortBy st = Inr st' \<and>
       leftIndex st' \<le> length left \<and> rightIndex st' \<le> length right \<and>
       result st' @ drop (leftIndex st') left @ drop (rightIndex st') right =
         result st @ merge_by (leq rd lc sortBy) (drop (leftIndex st) left) (drop (rightIndex st) right)"
proof (induction rd lc left right sortBy st rule: merge_while_both.induct)
  case (1 rd lc left right sortBy st)
  note ok = "1.prems"(1)
  show ?case
  proof (cases "leftIndex st < length left \<and> rightIndex st < length right")
    case True
    let ?l = "left ! leftIndex st" and ?r = "right ! rightIndex st"
    let ?st' = "if leq rd lc sortBy ?l ?r
          then st\<lparr>result := result st @ [?l], leftIndex := leftIndex st + 1\<rparr>
          else st\<lparr>result := result st @ [?r], rightIndex := rightIndex st + 1\<rparr>"
    have body: "merge_body rd lc left right sortBy st = Inr ?st'"
      using True ok by (intro merge_body_leq) auto
    have bounds: "leftIndex ?st' \<le> length left" "rightIndex ?st' \<le> length right"
      using True by auto
    from "1.IH"[OF True body ok bounds]
    obtain st'' where st'': "merge_while_both rd lc left right sortBy ?st' = Inr st''"
      "leftIndex st'' \<le> length left" "rightIndex st'' \<le> length right"
      "result st'' @ drop (leftIndex st'') left @ drop (rightIndex st'') right =
         result ?st' @ merge_by (leq rd lc sortBy) (drop (leftIndex ?st') left) (drop (rightIndex ?st') right)"
      by blast
    have dl: "drop (leftIndex st) left = ?l # drop (Suc (leftIndex st)) left"
      and dr: "drop (rightIndex st) right = ?r # drop (Suc (rightIndex st)) right"
      using True by (simp_all add: Cons_nth_drop_Suc)
    have "merge_while_both rd lc left right sortBy st = Inr st''"
      using True body st''(1) by (subst merge_while_both.simps) simp
    moreover have "result ?st' @ merge_by (leq rd lc sortBy) (drop (leftIndex ?st') left) (drop (rightIndex ?st') right)
       = result st @ merge_by (leq rd lc sortBy) (drop (leftIndex st) left) (drop (rightIndex st) right)"
      using True by (simp add: merge_by_drop)
    ultimately show ?thesis using st'' by auto
  next
    case False
    then have stop: "merge_while_both rd lc left right sortBy st = Inr st"
      by (subst merge_while_both.simps) auto
    from False "1.prems" have "drop (leftIndex st) left = [] \<or> drop (rightIndex st) right = []"
      by auto
    then have "merge_by (leq rd lc sortBy) (drop (leftIndex st) left) (drop (rightIndex st) right)
       = drop (leftIndex st) left @ drop (rightIndex st) right"
      by (cases "drop (leftIndex st) left") auto
    with stop "1.prems" show ?thesis by simp
  qed
qed

lemma merge_merge_by:
  assumes "sortBy = Name \<longrightarrow> (\<forall>x\<in>set left. wellFormed rd Name x)"
  shows "merge rd lc left right sortBy = Inr (merge_by (leq rd lc sortBy) left right)"
proof -
  let ?st0 = "\<lparr>result = [], leftIndex = 0, rightIndex = 0\<rparr>"
  from merge_while_both_merge_by[OF assms, of ?st0 right lc]
  obtain st' where st': "merge_while_both rd lc left right sortBy ?st0 = Inr st'"
      "leftIndex st' \<le> length left" "rightIndex st' \<le> length right"
      "result st' @ drop (leftIndex st') left @ drop (rightIndex st') right =
         merge_by (leq rd lc sortBy) left right"
    by auto
  then show ?thesis
    by (simp add: merge_def merge_while_left_eq merge_while_right_eq)
qed


lemma merge_by_induct [case_names Nil1 Nil2 Cons]:
  assumes "\<And>bs. Q [] bs" and "\<And>a as. Q (a # as) []"
    and "\<And>a as b bs. (P a b \<Longrightarrow> Q as (b # bs)) \<Longrightarrow> (\<not> P a b \<Longrightarrow> Q (a # as) bs)
           \<Longrightarrow> Q (a # as) (b # bs)"
  shows "Q (xs :: 'a list) (ys :: 'a list)"
proof -
  have "R = P \<Longrightarrow> Q xs ys" for R
    by (induction R xs ys rule: merge_by.induct) (use assms in auto)
  then show ?thesis by simp
qed

lemma sort_by_induct [case_names halves]:
  assumes "\<And>xs. (\<not> length xs \<le> 1 \<Longrightarrow> Q (take (length xs div 2) xs)) \<Longrightarrow>
                (\<not> length xs \<le> 1 \<Longrightarrow> Q (drop (length xs div 2) xs)) \<Longrightarrow> Q xs"
  shows "Q xs"
proof (induction xs rule: length_induct)
  case (1 xs)
  show ?case
    by (rule assms; rule "1.IH"[rule_format]) auto
qed

lemma mset_merge_by: "mset (merge_by P xs ys) = mset xs + mset ys"
  by (induction P xs ys rule: merge_by.induct) simp_all

lemma set_merge_by: "set (merge_by P xs ys) = set xs \<union> set ys"
  using mset_merge_by[of P xs ys] by (metis set_mset_mset set_mset_union)

lemma halves: "take (length xs div 2) xs @ drop (length xs div 2) xs = xs"
  by simp

lemma mset_sort_by: "mset (sort_by P xs) = mset xs"
proof (induction P xs rule: sort_by.induct)
  case (1 P xs)
  show ?case
  proof (cases "length xs \<le> 1")
    case True
    then show ?thesis by (subst sort_by.simps) simp
  next
    case False
    have "mset (sort_by P xs) =
        mset (take (length xs div 2) xs) + mset (drop (length xs div 2) xs)"
      using False "1.IH" by (subst sort_by.simps) (simp add: mset_merge_by)
    also have "\<dots> = mset xs"
      by (metis append_take_drop_id mset_append)
    finally show ?thesis .
  qed
qed

lemma set_sort_by: "set (sort_by P xs) = set xs"
  using mset_sort_by[of P xs] by (metis set_mset_mset)

lemma mergeSort_sort_by:
  "sortBy = Name \<longrightarrow> (\<forall>x\<in>set items. wellFormed rd Name x) \<Longrightarrow>
   mergeSort rd lc items sortBy = Inr (sort_by (leq rd lc sortBy) items)"
proof (induction rd lc items sortBy rule: mergeSort.induct)
  case (1 rd lc items sortBy)
  show ?case
  proof (cases "length items \<le> 1")
    case True
    then show ?thesis
      by (subst mergeSort.simps, subst sort_by.simps) simp
  next
    case False
    let ?m = "length items div 2"
    let ?left = "slice 0 ?m items" and ?right = "slice ?m (length items) items"
    have l: "?left = take ?m items" and r: "?right = drop ?m items"
      by (simp_all add: slice_def)
    have okl: "sortBy = Name \<longrightarrow> (\<forall>x\<in>set ?left. wellFormed rd Name x)"
      using "1.prems" unfolding l by (auto dest: in_set_takeD)
    have okr: "sortBy = Name \<longrightarrow> (\<forall>x\<in>set ?right. wellFormed rd Name x)"
      using "1.prems" unfolding r by (auto dest: in_set_dropD)
    have sl: "mergeSort rd lc ?left sortBy = Inr (sort_by (leq rd lc sortBy) ?left)"
      using "1.IH"(1)[OF False refl refl refl okl] .
    have sr: "mergeSort rd lc ?right sortBy = Inr (sort_by (leq rd lc sortBy) ?right)"
      using "1.IH"(2)[OF False refl refl refl sl okr] .
    have okm: "sortBy = Name \<longrightarrow>
        (\<forall>x\<in>set (sort_by (leq rd lc sortBy) ?left). wellFormed rd Name x)"
      using okl by (simp add: set_sort_by)
    have "mergeSort rd lc items sortBy =
        merge rd lc (sort_by (leq rd lc sortBy) ?left) (sort_by (leq rd lc sortBy) ?right) sortBy"
      using False sl sr by (subst mergeSort.simps) (simp add: Let_def)
    also have "\<dots> = Inr (merge_by (leq rd lc sortBy) (sort_by (leq rd lc sortBy) ?left)
        (sort_by (leq rd lc sortBy) ?right))"
      by (rule merge_merge_by[OF okm])
    also have "\<dots> = Inr (sort_by (leq rd lc sortBy) items)"
      using False unfolding l r by (subst (3) sort_by.simps) simp
    finally show ?thesis .
  qed
qed

lemma sorted_merge_by:
  assumes tot: "\<And>x y. x \<in> A \<Longrightarrow> y \<in> A \<Longrightarrow> P x y \<or> P y x"
    and trans: "\<And>x y z. x \<in> A \<Longrightarrow> y \<in> A \<Longrightarrow> z \<in> A \<Longrightarrow> P x y \<Longrightarrow> P y z \<Longrightarrow> P x z"
  shows "set xs \<subseteq> A \<Longrightarrow> set ys \<subseteq> A \<Longrightarrow> sorted_wrt P xs \<Longrightarrow> sorted_wrt P ys \<Longrightarrow>
     sorted_wrt P (merge_by P xs ys)"
proof (induction xs ys rule: merge_by_induct[where P = P])
  case (Cons a as b bs)
  show ?case
  proof (cases "P a b")
    case True
    have "P a z" if "z \<in> set bs" for z
      using that Cons.prems True trans[of a b z] by auto
    then show ?thesis
      using True Cons.IH(1) Cons.prems by (auto simp: set_merge_by)
  next
    case False
    then have ba: "P b a" using tot[of a b] Cons.prems by auto
    have "P b z" if "z \<in> set as" for z
      using that Cons.prems ba trans[of b a z] by auto
    then show ?thesis
      using False ba Cons.IH(2) Cons.prems by (auto simp: set_merge_by)
  qed
qed simp_all

lemma sorted_sort_by:
  assumes tot: "\<And>x y. x \<in> A \<Longrightarrow> y \<in> A \<Longrightarrow> P x y \<or> P y x"
    and trans: "\<And>x y z. x \<in> A \<Longrightarrow> y \<in> A \<Longrightarrow> z \<in> A \<Longrightarrow> P x y \<Longrightarrow> P y z \<Longrightarrow> P x z"
  shows "set xs \<subseteq> A \<Longrightarrow> sorted_wrt P (sort_by P xs)"
proof (induction xs rule: sort_by_induct)
  case (halves xs)
  show ?case
  proof (cases "length xs \<le> 1")
    case True
    then have "xs = [] \<or> (\<exists>x. xs = [x])"
      by (cases xs) auto
    then show ?thesis by (subst sort_by.simps) auto
  next
    case False
    let ?l = "take (length xs div 2) xs" and ?r = "drop (length xs div 2) xs"
    have sub: "set ?l \<subseteq> A" "set ?r \<subseteq> A"
      using halves.prems by (auto dest: in_set_takeD in_set_dropD)
    have "sorted_wrt P (merge_by P (sort_by P ?l) (sort_by P ?r))"
      using sub halves.IH[OF False]
      by (intro sorted_merge_by[of A P, OF tot trans]) (auto simp: set_sort_by)
    then show ?thesis
      using False by (subst sort_by.simps) simp
  qed
qed

lemma filter_merge_by:
  assumes tot: "\<And>x y. x \<in> A \<Longrightarrow> y \<in> A \<Longrightarrow> P x y \<or> P y x"
    and trans: "\<And>x y z. x \<in> A \<Longrightarrow> y \<in> A \<Longrightarrow> z \<in> A \<Longrightarrow> P x y \<Longrightarrow> P y z \<Longrightarrow> P x z"
    and cls: "\<And>x y. x \<in> A \<Longrightarrow> y \<in> A \<Longrightarrow> Q x \<Longrightarrow> Q y \<Longrightarrow> P x y"
  shows "set xs \<subseteq> A \<Longrightarrow> set ys \<subseteq> A \<Longrightarrow> sorted_wrt P xs \<Longrightarrow> sorted_wrt P ys \<Longrightarrow>
     filter Q (merge_by P xs ys) = filter Q xs @ filter Q ys"
proof (induction xs ys rule: merge_by_induct[where P = P])
  case (Cons a as b bs)
  show ?case
  proof (cases "P a b")
    case True
    then show ?thesis using Cons.IH(1) Cons.prems by simp
  next
    case False
    have none: "filter Q (a # as) = []" if "Q b"
    proof -
      have "\<not> Q z" if z: "z \<in> set (a # as)" for z
      proof
        assume "Q z"
        then have "P z b" using cls[of z b] z \<open>Q b\<close> Cons.prems by auto
        moreover have "P a z" using z Cons.prems tot[of a a] by auto
        ultimately have "P a b" using trans[of a z b] z Cons.prems by auto
        with False show False ..
      qed
      then show ?thesis by (simp only: filter_empty_conv) blast
    qed
    have "filter Q (merge_by P (a # as) (b # bs)) = filter Q (b # merge_by P (a # as) bs)"
      using False by simp
    also have "\<dots> = filter Q [b] @ filter Q (a # as) @ filter Q bs"
      using Cons.IH(2)[OF False] Cons.prems by simp
    also have "\<dots> = filter Q (a # as) @ filter Q (b # bs)"
      using none by (cases "Q b") simp_all
    finally show ?thesis .
  qed
qed simp_all

lemma filter_sort_by:
  assumes tot: "\<And>x y. x \<in> A \<Longrightarrow> y \<in> A \<Longrightarrow> P x y \<or> P y x"
    and trans: "\<And>x y z. x \<in> A \<Longrightarrow> y \<in> A \<Longrightarrow> z \<in> A \<Longrightarrow> P x y \<Longrightarrow> P y z \<Longrightarrow> P x z"
    and cls: "\<And>x y. x \<in> A \<Longrightarrow> y \<in> A \<Longrightarrow> Q x \<Longrightarrow> Q y \<Longrightarrow> P x y"
  shows "set xs \<subseteq> A \<Longrightarrow> filter Q (sort_by P xs) = filter Q xs"
proof (induction xs rule: sort_by_induct)
  case (halves xs)
  show ?case
  proof (cases "length xs \<le> 1")
    case True
    then show ?thesis by (subst sort_by.simps) simp
  next
    case False
    let ?l = "take (length xs div 2) xs" and ?r = "drop (length xs div 2) xs"
    have sub: "set ?l \<subseteq> A" "set ?r \<subseteq> A"
      using halves.prems by (auto dest: in_set_takeD in_set_dropD)
    have "filter Q (sort_by P xs) = filter Q (merge_by P (sort_by P ?l) (sort_by P ?r))"
      using False by (subst sort_by.simps) simp
    also have "\<dots> = filter Q (sort_by P ?l) @ filter Q (sort_by P ?r)"
      using sub sorted_sort_by[of A P, OF tot trans]
      by (intro filter_merge_by[of A P Q, OF tot trans cls]) (auto simp: set_sort_by)
    also have "\<dots> = filter Q ?l @ filter Q ?r"
      using halves.IH[OF False] sub by simp
    also have "\<dots> = filter Q xs"
      by (metis append_take_drop_id filter_append)
    finally show ?thesis .
  qed
qed

lemma merge_by_append:
  "\<forall>x\<in>set xs. \<forall>y\<in>set ys. P x y \<Longrightarrow> merge_by P xs ys = xs @ ys"
  by (induction P xs ys rule: merge_by.induct) simp_all

lemma sort_by_sorted: "sorted_wrt P xs \<Longrightarrow> sort_by P xs = xs"
proof (induction P xs rule: sort_by.induct)
  case (1 P xs)
  show ?case
  proof (cases "length xs \<le> 1")
    case True
    then show ?thesis by (subst sort_by.simps) simp
  next
    case False
    let ?l = "take (length xs div 2) xs" and ?r = "drop (length xs div 2) xs"
    have split: "sorted_wrt P (?l @ ?r)"
      using "1.prems" by simp
    then have parts: "sorted_wrt P ?l" "sorted_wrt P ?r" "\<forall>x\<in>set ?l. \<forall>y\<in>set ?r. P x y"
      unfolding sorted_wrt_append by auto
    have "sort_by P xs = merge_by P ?l ?r"
      using False "1.IH"[OF False] parts by (subst sort_by.simps) simp
    also have "\<dots> = ?l @ ?r"
      using parts(3) by (rule merge_by_append)
    finally show ?thesis by simp
  qed
qed

section \<open>The comparison as an order\<close>

lemma js_le_total: "a \<noteq> NaN \<Longrightarrow> b \<noteq> NaN \<Longrightarrow> js_le a b \<or> js_le b a"
  by (cases a; cases b) auto

lemma js_le_trans: "js_le a b \<Longrightarrow> js_le b c \<Longrightarrow> js_le a c"
  by (cases a; cases b; cases c) auto

lemma js_le_refl: "a \<noteq> NaN \<Longrightarrow> js_le a a"
  by (cases a) auto

lemma consistent_flip:
  "consistent lc \<Longrightarrow> sgn (lc a (JStr b)) = - sgn (lc b (JStr a))"
  unfolding consistent_def by blast

lemma consistent_total: "consistent lc \<Longrightarrow> lc a (JStr b) \<le> 0 \<or> lc b (JStr a) \<le> 0"
  using consistent_flip[of lc a b]
  by (cases "lc a (JStr b) \<le> 0") (simp_all add: sgn_if split: if_splits)

lemma consistent_sym0: "consistent lc \<Longrightarrow> lc a (JStr b) = 0 \<Longrightarrow> lc b (JStr a) = 0"
  using consistent_flip[of lc a b] by (simp add: sgn_if split: if_splits)

lemma consistent_trans:
  "consistent lc \<Longrightarrow> lc a (JStr b) \<le> 0 \<Longrightarrow> lc b (JStr c) \<le> 0 \<Longrightarrow> lc a (JStr c) \<le> 0"
  unfolding consistent_def by blast

lemma wellFormed_Name: "wellFormed rd Name p \<longleftrightarrow> (\<exists>s. name p = JStr s)"
  by (cases "name p") auto

lemma leq_total:
  assumes "sortBy = Name \<longrightarrow> consistent lc" "wellFormed rd sortBy x" "wellFormed rd sortBy y"
  shows "leq rd lc sortBy x y \<or> leq rd lc sortBy y x"
proof (cases sortBy)
  case Price
  with assms show ?thesis by (simp add: js_le_total)
next
  case Name
  with assms obtain a b where "name x = JStr a" "name y = JStr b" "consistent lc"
    by (metis wellFormed_Name)
  then show ?thesis using Name consistent_total[of lc a b] by simp
qed

lemma leq_trans:
  assumes "sortBy = Name \<longrightarrow> consistent lc"
    "wellFormed rd sortBy x" "wellFormed rd sortBy y" "wellFormed rd sortBy z"
    "leq rd lc sortBy x y" "leq rd lc sortBy y z"
  shows "leq rd lc sortBy x z"
proof (cases sortBy)
  case Price
  with assms show ?thesis by (auto intro: js_le_trans)
next
  case Name
  with assms obtain a b c where "name x = JStr a" "name y = JStr b" "name z = JStr c" "consistent lc"
    by (metis wellFormed_Name)
  then show ?thesis using Name assms(5,6) consistent_trans[of lc a b c] by simp
qed

lemma leq_sameKey:
  assumes "sortBy = Name \<longrightarrow> consistent lc"
    "wellFormed rd sortBy x" "wellFormed rd sortBy y"
    "sameKey rd lc sortBy c x" "sameKey rd lc sortBy c y"
  shows "leq rd lc sortBy x y"
proof (cases sortBy)
  case Price
  with assms show ?thesis by (auto intro: js_le_refl)
next
  case Name
  with assms have "\<exists>s. name c = JStr s"
    by (cases "name c") auto
  with Name assms obtain a b s where n: "name x = JStr a" "name y = JStr b" "name c = JStr s"
    and c: "consistent lc"
    by (metis wellFormed_Name)
  with assms(4,5) Name have "lc s (JStr a) = 0" "lc s (JStr b) = 0" by simp_all
  then have "lc a (JStr s) \<le> 0" "lc s (JStr b) \<le> 0"
    using consistent_sym0[OF c, of s a] by simp_all
  then have "lc a (JStr b) \<le> 0" by (rule consistent_trans[OF c])
  then show ?thesis using Name n by simp
qed

lemma mergeSort_wellFormed:
  assumes wf: "\<forall>p\<in>set items. wellFormed rd sortBy p"
  shows "mergeSort rd lc items sortBy = Inr (sort_by (leq rd lc sortBy) items)"
  using wf by (intro mergeSort_sort_by) auto

lemma sorted_sort_by_leq:
  assumes wf: "\<forall>p\<in>set items. wellFormed rd sortBy p" and c: "sortBy = Name \<longrightarrow> consistent lc"
  shows "sorted_wrt (leq rd lc sortBy) (sort_by (leq rd lc sortBy) items)"
proof (rule sorted_sort_by[where A = "{p. wellFormed rd sortBy p}"])
  show "set items \<subseteq> {p. wellFormed rd sortBy p}" using wf by auto
next
  fix x y assume "x \<in> {p. wellFormed rd sortBy p}" "y \<in> {p. wellFormed rd sortBy p}"
  then show "leq rd lc sortBy x y \<or> leq rd lc sortBy y x"
    using leq_total[OF c] by simp
next
  fix x y z
  assume "x \<in> {p. wellFormed rd sortBy p}" "y \<in> {p. wellFormed rd sortBy p}"
    "z \<in> {p. wellFormed rd sortBy p}" "leq rd lc sortBy x y" "leq rd lc sortBy y z"
  then show "leq rd lc sortBy x z"
    using leq_trans[OF c, of rd x y z] by simp
qed

lemma filter_sort_by_leq:
  assumes wf: "\<forall>p\<in>set items. wellFormed rd sortBy p" and c: "sortBy = Name \<longrightarrow> consistent lc"
  shows "filter (sameKey rd lc sortBy k) (sort_by (leq rd lc sortBy) items) =
         filter (sameKey rd lc sortBy k) items"
proof (rule filter_sort_by[where A = "{p. wellFormed rd sortBy p}"])
  show "set items \<subseteq> {p. wellFormed rd sortBy p}" using wf by auto
next
  fix x y assume "x \<in> {p. wellFormed rd sortBy p}" "y \<in> {p. wellFormed rd sortBy p}"
  then show "leq rd lc sortBy x y \<or> leq rd lc sortBy y x"
    using leq_total[OF c] by simp
next
  fix x y z
  assume "x \<in> {p. wellFormed rd sortBy p}" "y \<in> {p. wellFormed rd sortBy p}"
    "z \<in> {p. wellFormed rd sortBy p}" "leq rd lc sortBy x y" "leq rd lc sortBy y z"
  then show "leq rd lc sortBy x z"
    using leq_trans[OF c, of rd x y z] by simp
next
  fix x y
  assume "x \<in> {p. wellFormed rd sortBy p}" "y \<in> {p. wellFormed rd sortBy p}"
    "sameKey rd lc sortBy k x" "sameKey rd lc sortBy k y"
  then show "leq rd lc sortBy x y"
    using leq_sameKey[OF c, of rd x y k] by simp
qed

section \<open>What the loops keep, whatever the keys\<close>

lemma merge_while_both_inv:
  "leftIndex st \<le> length left \<Longrightarrow> rightIndex st \<le> length right \<Longrightarrow>
   merge_while_both rd lc left right sortBy st = Inr st' \<Longrightarrow>
     leftIndex st' \<le> length left \<and> rightIndex st' \<le> length right \<and>
     mset (result st') + mset (drop (leftIndex st') left) + mset (drop (rightIndex st') right) =
     mset (result st) + mset (drop (leftIndex st) left) + mset (drop (rightIndex st) right)"
proof (induction rd lc left right sortBy st rule: merge_while_both.induct)
  case (1 rd lc left right sortBy st)
  show ?case
  proof (cases "leftIndex st < length left \<and> rightIndex st < length right")
    case True
    then obtain st1 where body: "merge_body rd lc left right sortBy st = Inr st1"
      and rest: "merge_while_both rd lc left right sortBy st1 = Inr st'"
      using "1.prems"(3) by (subst (asm) merge_while_both.simps) (auto split: sum.splits)
    from merge_body_cases[OF body] True
    have step: "leftIndex st1 \<le> length left \<and> rightIndex st1 \<le> length right \<and>
       mset (result st1) + mset (drop (leftIndex st1) left) + mset (drop (rightIndex st1) right) =
       mset (result st) + mset (drop (leftIndex st) left) + mset (drop (rightIndex st) right)"
      by (auto simp: Cons_nth_drop_Suc[symmetric])
    from "1.IH"[OF True body _ _ rest] step show ?thesis by simp
  next
    case False
    then have "st' = st"
      using "1.prems"(3) by (subst (asm) merge_while_both.simps) auto
    with "1.prems" show ?thesis by simp
  qed
qed

lemma merge_while_both_error:
  "leftIndex st \<le> length left \<Longrightarrow> rightIndex st \<le> length right \<Longrightarrow>
   merge_while_both rd lc left right sortBy st = Inl e \<Longrightarrow>
     sortBy = Name \<and> (\<exists>p\<in>set left. \<not> wellFormed rd Name p)"
proof (induction rd lc left right sortBy st rule: merge_while_both.induct)
  case (1 rd lc left right sortBy st)
  have running: "leftIndex st < length left \<and> rightIndex st < length right"
    using "1.prems"(3) by (subst (asm) merge_while_both.simps) (auto split: if_splits)
  show ?case
  proof (cases "merge_body rd lc left right sortBy st")
    case (Inl e')
    from merge_body_error[OF Inl] running show ?thesis
      using nth_mem by blast
  next
    case (Inr st1)
    then have rest: "merge_while_both rd lc left right sortBy st1 = Inl e"
      using "1.prems"(3) running by (subst (asm) merge_while_both.simps) simp
    from merge_body_cases[OF Inr] running
    have "leftIndex st1 \<le> length left" "rightIndex st1 \<le> length right"
      by auto
    from "1.IH"[OF running Inr this rest] show ?thesis .
  qed
qed

lemma merge_mset:
  assumes "merge rd lc left right sortBy = Inr out"
  shows "mset out = mset left + mset right"
proof -
  let ?st0 = "\<lparr>result = [], leftIndex = 0, rightIndex = 0\<rparr>"
  from assms obtain st' where loop: "merge_while_both rd lc left right sortBy ?st0 = Inr st'"
    and out: "out = result (merge_while_right right (merge_while_left left st'))"
    by (auto simp: merge_def split: sum.splits)
  from merge_while_both_inv[OF _ _ loop]
  have inv: "leftIndex st' \<le> length left" "rightIndex st' \<le> length right"
    "mset (result st') + mset (drop (leftIndex st') left) + mset (drop (rightIndex st') right) =
     mset left + mset right"
    by simp_all
  have "out = result st' @ drop (leftIndex st') left @ drop (rightIndex st') right"
    using inv(1,2) by (simp add: out merge_while_left_eq merge_while_right_eq)
  with inv(3) show ?thesis by (simp add: add.assoc)
qed

lemma merge_error:
  assumes "merge rd lc left right sortBy = Inl e"
  shows "sortBy = Name \<and> (\<exists>p\<in>set left. \<not> wellFormed rd Name p)"
proof -
  let ?st0 = "\<lparr>result = [], leftIndex = 0, rightIndex = 0\<rparr>"
  from assms have "merge_while_both rd lc left right sortBy ?st0 = Inl e"
    by (auto simp: merge_def split: sum.splits)
  from merge_while_both_error[OF _ _ this] show ?thesis by simp
qed

lemma mergeSort_cases:
  "mergeSort rd lc items sortBy = Inr out \<Longrightarrow> mset out = mset items"
  "mergeSort rd lc items sortBy = Inl e \<Longrightarrow>
     sortBy = Name \<and> (\<exists>p\<in>set items. \<not> wellFormed rd Name p)"
proof (induction rd lc items sortBy arbitrary: out e rule: mergeSort.induct)
  case (1 rd lc items sortBy)
  let ?m = "length items div 2"
  let ?left = "slice 0 ?m items" and ?right = "slice ?m (length items) items"
  have parts: "items = ?left @ ?right"
    by (simp add: slice_def)
  have unfold: "mergeSort rd lc items sortBy =
     (case mergeSort rd lc ?left sortBy of
        Inl e \<Rightarrow> Inl e
      | Inr sortedLeft \<Rightarrow>
          (case mergeSort rd lc ?right sortBy of
             Inl e \<Rightarrow> Inl e
           | Inr sortedRight \<Rightarrow> merge rd lc sortedLeft sortedRight sortBy))"
    if "\<not> length items \<le> 1"
    using that by (subst mergeSort.simps) (simp add: Let_def)
  {
    case 1
    show ?case
    proof (cases "length items \<le> 1")
      case True
      with "1.prems" show ?thesis by (subst (asm) mergeSort.simps) simp
    next
      case False
      from "1.prems" unfold[OF False]
      obtain sl sr where sl: "mergeSort rd lc ?left sortBy = Inr sl"
        and sr: "mergeSort rd lc ?right sortBy = Inr sr"
        and m: "merge rd lc sl sr sortBy = Inr out"
        by (auto split: sum.splits)
      have "mset sl = mset ?left" "mset sr = mset ?right"
        using "1.IH"(1)[OF False refl refl refl sl] "1.IH"(3)[OF False refl refl refl sl sr]
        by simp_all
      with merge_mset[OF m] have "mset out = mset ?left + mset ?right" by simp
      then show ?thesis using parts by (metis mset_append)
    qed
  next
    case 2
    have big: "\<not> length items \<le> 1"
      using "2.prems" by (subst (asm) mergeSort.simps) (auto split: if_splits)
    have inl: "x \<in> set ?left \<Longrightarrow> x \<in> set items" and inr: "x \<in> set ?right \<Longrightarrow> x \<in> set items" for x
      by (auto simp: slice_def dest: in_set_takeD in_set_dropD)
    show ?case
    proof (cases "mergeSort rd lc ?left sortBy")
      case (Inl e')
      from "1.IH"(2)[OF big refl refl refl Inl] inl show ?thesis by blast
    next
      case sl: (Inr sl)
      show ?thesis
      proof (cases "mergeSort rd lc ?right sortBy")
        case (Inl e')
        from "1.IH"(4)[OF big refl refl refl sl Inl] inr show ?thesis by blast
      next
        case sr: (Inr sr)
        from "2.prems" unfold[OF big] sl sr have "merge rd lc sl sr sortBy = Inl e"
          by simp
        from merge_error[OF this] obtain p where "sortBy = Name" "p \<in> set sl" "\<not> wellFormed rd Name p"
          by blast
        moreover have "set sl = set ?left"
          using "1.IH"(1)[OF big refl refl refl sl] by (metis set_mset_mset)
        ultimately show ?thesis using inl by blast
      qed
    qed
  }
qed

lemma merge_while_both_exit:
  "merge_while_both rd lc left right sortBy st = Inr st' \<Longrightarrow>
   \<not> (leftIndex st' < length left \<and> rightIndex st' < length right)"
proof (induction rd lc left right sortBy st rule: merge_while_both.induct)
  case (1 rd lc left right sortBy st)
  show ?case
  proof (cases "leftIndex st < length left \<and> rightIndex st < length right")
    case True
    then obtain st1 where body: "merge_body rd lc left right sortBy st = Inr st1"
      and rest: "merge_while_both rd lc left right sortBy st1 = Inr st'"
      using "1.prems" by (subst (asm) merge_while_both.simps) (auto split: sum.splits)
    from "1.IH"[OF True body rest] show ?thesis .
  next
    case False
    then have "st' = st"
      using "1.prems" by (subst (asm) merge_while_both.simps) auto
    with False show ?thesis by simp
  qed
qed

section \<open>The entry points and the examples' comparison\<close>

lemma charCompare_consistent: "consistent charCompare"
  unfolding consistent_def charCompare_def by (auto simp: sgn_if)

lemma copy_same: "newProduct (id' p) (name p) (price p) (image' p) = p"
  by (simp add: newProduct_def)

lemma mergeSort_short: "length items \<le> 1 \<Longrightarrow> mergeSort rd lc items sortBy = Inr items"
  by (subst mergeSort.simps) simp

text \<open>
  The two entry points copy every product and hand the copies to \<open>mergeSort\<close>; a copy has
  the fields of its original, so on values they are \<open>mergeSort\<close> with the key fixed.
\<close>

lemma sortByPrice_mergeSort: "sortByPrice rd lc (AnArray ps) = mergeSort rd lc ps Price"
  by (simp add: sortByPrice_def copy_same mergeSort_short)

lemma sortByName_mergeSort: "sortByName rd lc (AnArray ps) = mergeSort rd lc ps Name"
  by (simp add: sortByName_def copy_same mergeSort_short)

section \<open>The loops against the reference algorithm\<close>

declare spec_sort.simps [simp del]

lemma merge_by_spec_merge:
  assumes eq: "\<And>a b. a \<in> A \<Longrightarrow> b \<in> A \<Longrightarrow> P a b \<longleftrightarrow> (L a b \<or> \<not> L b a)"
  shows "set xs \<subseteq> A \<Longrightarrow> set ys \<subseteq> A \<Longrightarrow> merge_by P xs ys = spec_merge L xs ys"
proof (induction xs ys rule: merge_by_induct[where P = P])
  case (Cons a as b bs)
  have ab: "P a b \<longleftrightarrow> (L a b \<or> \<not> L b a)"
    using eq[of a b] Cons.prems by simp
  show ?case
  proof (cases "P a b")
    case True
    with ab Cons.IH(1) Cons.prems show ?thesis by auto
  next
    case False
    with ab Cons.IH(2) Cons.prems show ?thesis by auto
  qed
qed simp_all

lemma sort_by_spec_sort:
  assumes eq: "\<And>a b. a \<in> A \<Longrightarrow> b \<in> A \<Longrightarrow> P a b \<longleftrightarrow> (L a b \<or> \<not> L b a)"
  shows "set xs \<subseteq> A \<Longrightarrow> sort_by P xs = spec_sort L xs"
proof (induction xs rule: sort_by_induct)
  case (halves xs)
  show ?case
  proof (cases "length xs \<le> 1")
    case True
    then show ?thesis
      by (subst sort_by.simps, subst spec_sort.simps) (simp add: Let_def)
  next
    case False
    let ?l = "take (length xs div 2) xs" and ?r = "drop (length xs div 2) xs"
    have sub: "set ?l \<subseteq> A" "set ?r \<subseteq> A"
      using halves.prems by (auto dest: in_set_takeD in_set_dropD)
    have "sort_by P xs = merge_by P (sort_by P ?l) (sort_by P ?r)"
      using False by (subst sort_by.simps) simp
    also have "\<dots> = spec_merge L (sort_by P ?l) (sort_by P ?r)"
      using sub by (intro merge_by_spec_merge[of A P L, OF eq]) (auto simp: set_sort_by)
    also have "\<dots> = spec_merge L (spec_sort L ?l) (spec_sort L ?r)"
      using halves.IH[OF False] sub by simp
    also have "\<dots> = spec_sort L xs"
      using False by (subst (3) spec_sort.simps) (simp add: Let_def)
    finally show ?thesis .
  qed
qed

lemma js_le_lt: "a \<noteq> NaN \<Longrightarrow> b \<noteq> NaN \<Longrightarrow> js_le a b \<longleftrightarrow> (js_lt a b \<or> \<not> js_lt b a)"
  by (cases a; cases b) auto

lemma leq_lesser:
  assumes "sortBy = Name \<longrightarrow> consistent lc" "wellFormed rd sortBy x" "wellFormed rd sortBy y"
  shows "leq rd lc sortBy x y \<longleftrightarrow>
     (spec_lesser rd lc sortBy x y \<or> \<not> spec_lesser rd lc sortBy y x)"
proof (cases sortBy)
  case Price
  with assms show ?thesis by (simp add: js_le_lt)
next
  case Name
  with assms obtain a b where n: "name x = JStr a" "name y = JStr b" and c: "consistent lc"
    by (metis wellFormed_Name)
  have "lc a (JStr b) \<le> 0 \<longleftrightarrow> (lc a (JStr b) < 0 \<or> \<not> lc b (JStr a) < 0)"
    using consistent_flip[OF c, of a b] by (auto simp: sgn_if split: if_splits)
  then show ?thesis using Name n by simp
qed

lemma merge_Nil:
  "merge rd lc [] right sortBy = Inr right" "merge rd lc left [] sortBy = Inr left"
proof -
  let ?st0 = "\<lparr>result = [], leftIndex = 0, rightIndex = 0\<rparr>"
  have "merge_while_both rd lc [] right sortBy ?st0 = Inr ?st0"
    by (subst merge_while_both.simps) simp
  then show "merge rd lc [] right sortBy = Inr right"
    by (simp add: merge_def merge_while_left_eq merge_while_right_eq)
  have "merge_while_both rd lc left [] sortBy ?st0 = Inr ?st0"
    by (subst merge_while_both.simps) simp
  then show "merge rd lc left [] sortBy = Inr left"
    by (simp add: merge_def merge_while_left_eq merge_while_right_eq)
qed

section \<open>The heap versions compute what the list versions compute\<close>

lemma valid_arrayD:
  assumes "valid_array h a"
  shows "a < length h" "h ! a = Arr (elems h a)" "\<forall>e\<in>set (elems h a). e < length h"
  using assms by (auto simp: valid_array_def elems_def list_all_iff split: cell.splits)

lemma valid_arrayI:
  "a < length h \<Longrightarrow> h ! a = Arr es \<Longrightarrow> \<forall>e\<in>set es. e < length h \<Longrightarrow> valid_array h a"
  by (simp add: valid_array_def list_all_iff)

lemma prefix_nth: "prefix h h' \<Longrightarrow> a < length h \<Longrightarrow> h' ! a = h ! a"
  by (auto simp: prefix_def nth_append)

lemma prefix_elems: "prefix h h' \<Longrightarrow> a < length h \<Longrightarrow> elems h' a = elems h a"
  by (simp add: elems_def prefix_nth)

lemma prefix_objectAt: "prefix h h' \<Longrightarrow> a < length h \<Longrightarrow> objectAt h' a = objectAt h a"
  by (simp add: objectAt_def prefix_nth)

lemma prefix_valid:
  assumes "prefix h h'" "valid_array h a"
  shows "valid_array h' a"
proof -
  note v = valid_arrayD[OF assms(2)]
  have le: "length h \<le> length h'" using assms(1) by (rule prefix_length_le)
  show ?thesis
  proof (rule valid_arrayI)
    show "a < length h'" using v(1) le by simp
    show "h' ! a = Arr (elems h a)" using v(1,2) assms(1) by (simp add: prefix_nth)
    show "\<forall>e\<in>set (elems h a). e < length h'" using v(3) le by auto
  qed
qed

lemma prefix_objects:
  assumes "prefix h h'" "valid_array h a"
  shows "objects h' a = objects h a"
proof -
  note v = valid_arrayD[OF assms(2)]
  have "elems h' a = elems h a" using assms(1) v(1) by (rule prefix_elems)
  moreover have "map (objectAt h') (elems h a) = map (objectAt h) (elems h a)"
    using v(3) assms(1) by (simp add: prefix_objectAt)
  ultimately show ?thesis by (simp add: objects_def)
qed

lemma elems_result: "elems (h @ [Arr res]) (length h) = res"
  by (simp add: elems_def)

lemma push_result: "push (h @ [Arr res]) (length h) v = h @ [Arr (res @ [v])]"
  by (simp add: push_def elems_def)


lemma objects_result:
  "\<forall>e\<in>set res. e < length h \<Longrightarrow> objects (h @ [Arr res]) (length h) = map (objectAt h) res"
  by (simp add: objects_def elems_result objectAt_def nth_append)

lemma elems_old: "a < length h \<Longrightarrow> elems (h @ t) a = elems h a"
  by (simp add: elems_def nth_append)

lemma objectAt_old: "a < length h \<Longrightarrow> objectAt (h @ t) a = objectAt h a"
  by (simp add: objectAt_def nth_append)

lemma merge_body_h_eq:
  assumes vl: "valid_array h left" and vr: "valid_array h right"
    and st: "store s = h @ [Arr res]" "resultRef s = length h"
    and li: "leftIdx s < length (elems h left)" and ri: "rightIdx s < length (elems h right)"
  shows "merge_body_h rd lc left right sortBy s =
     (case comparison rd lc sortBy (objectAt h (elems h left ! leftIdx s))
             (objectAt h (elems h right ! rightIdx s)) of
        Inl e \<Rightarrow> Inl e
      | Inr c \<Rightarrow>
          if c \<le> 0 then
            Inr (s\<lparr>store := h @ [Arr (res @ [elems h left ! leftIdx s])],
                   leftIdx := leftIdx s + 1\<rparr>)
          else
            Inr (s\<lparr>store := h @ [Arr (res @ [elems h right ! rightIdx s])],
                   rightIdx := rightIdx s + 1\<rparr>))"
proof -
  note l = valid_arrayD[OF vl] and r = valid_arrayD[OF vr]
  have el: "elems (h @ [Arr res]) left = elems h left"
    and er: "elems (h @ [Arr res]) right = elems h right"
    using l(1) r(1) by (simp_all add: elems_old)
  have "elems h left ! leftIdx s < length h" "elems h right ! rightIdx s < length h"
    using l(3) r(3) li ri by simp_all
  then have ol: "objectAt (h @ [Arr res]) (elems h left ! leftIdx s) =
        objectAt h (elems h left ! leftIdx s)"
    and or: "objectAt (h @ [Arr res]) (elems h right ! rightIdx s) =
        objectAt h (elems h right ! rightIdx s)"
    by (simp_all add: objectAt_old)
  show ?thesis
    unfolding merge_body_h_def Let_def st el er ol or push_result by (rule refl)
qed

lemma merge_body_objects:
  assumes vl: "valid_array h left" and vr: "valid_array h right"
    and li: "li < length (elems h left)" and ri: "ri < length (elems h right)"
  shows "merge_body rd lc (objects h left) (objects h right) sortBy
           \<lparr>result = out, leftIndex = li, rightIndex = ri\<rparr> =
     (case comparison rd lc sortBy (objectAt h (elems h left ! li))
             (objectAt h (elems h right ! ri)) of
        Inl e \<Rightarrow> Inl e
      | Inr c \<Rightarrow>
          if c \<le> 0 then
            Inr \<lparr>result = out @ [objectAt h (elems h left ! li)], leftIndex = li + 1,
                  rightIndex = ri\<rparr>
          else
            Inr \<lparr>result = out @ [objectAt h (elems h right ! ri)], leftIndex = li,
                  rightIndex = ri + 1\<rparr>)"
  using li ri by (simp add: merge_body_def objects_def split: sum.splits)


lemma merge_while_both_h_sim:
  assumes vl: "valid_array h left" and vr: "valid_array h right"
  shows "store s = h @ [Arr res] \<Longrightarrow> resultRef s = length h \<Longrightarrow>
     set res \<subseteq> set (elems h left) \<union> set (elems h right) \<Longrightarrow>
     leftIdx s \<le> length (elems h left) \<Longrightarrow> rightIdx s \<le> length (elems h right) \<Longrightarrow>
     \<exists>out. merge_while_both_h rd lc left right sortBy s = Some out \<and>
       (case out of
          Inl e \<Rightarrow>
            merge_while_both rd lc (objects h left) (objects h right) sortBy
              \<lparr>result = map (objectAt h) res, leftIndex = leftIdx s, rightIndex = rightIdx s\<rparr>
              = Inl e
        | Inr s' \<Rightarrow>
            resultRef s' = length h \<and> leftIdx s' \<le> length (elems h left) \<and>
            rightIdx s' \<le> length (elems h right) \<and>
            (\<exists>res'. store s' = h @ [Arr res'] \<and>
               set res' \<subseteq> set (elems h left) \<union> set (elems h right) \<and>
               merge_while_both rd lc (objects h left) (objects h right) sortBy
                 \<lparr>result = map (objectAt h) res, leftIndex = leftIdx s,
                    rightIndex = rightIdx s\<rparr>
               = Inr \<lparr>result = map (objectAt h) res', leftIndex = leftIdx s',
                       rightIndex = rightIdx s'\<rparr>))"
proof (induction "(length (elems h left) - leftIdx s) + (length (elems h right) - rightIdx s)"
    arbitrary: s res rule: less_induct)
  case less
  let ?ls = "elems h left" and ?rs = "elems h right"
  let ?L = "objects h left" and ?R = "objects h right"
  let ?st = "\<lparr>result = map (objectAt h) res, leftIndex = leftIdx s, rightIndex = rightIdx s\<rparr>"
  note l = valid_arrayD[OF vl] and r = valid_arrayD[OF vr]
  have el: "elems (store s) left = ?ls" and er: "elems (store s) right = ?rs"
    using l(1) r(1) less.prems(1) by (simp_all add: elems_old)
  have len: "length ?L = length ?ls" "length ?R = length ?rs"
    by (simp_all add: objects_def)
  show ?case
  proof (cases "leftIdx s < length ?ls \<and> rightIdx s < length ?rs")
    case False
    have "merge_while_both_h rd lc left right sortBy s = Some (Inr s)"
      using False by (subst merge_while_both_h.simps) (auto simp: el er)
    moreover have "merge_while_both rd lc ?L ?R sortBy ?st = Inr ?st"
      using False by (subst merge_while_both.simps) (auto simp: len)
    ultimately show ?thesis using less.prems by auto
  next
    case True
    then have li: "leftIdx s < length ?ls" and ri: "rightIdx s < length ?rs" by simp_all
    let ?c = "comparison rd lc sortBy (objectAt h (?ls ! leftIdx s)) (objectAt h (?rs ! rightIdx s))"
    note body_h = merge_body_h_eq[OF vl vr less.prems(1,2) li ri, of rd lc sortBy]
    note body = merge_body_objects[OF vl vr li ri, of rd lc sortBy "map (objectAt h) res"]
    have unfold_h: "merge_while_both_h rd lc left right sortBy s =
        (case merge_body_h rd lc left right sortBy s of
           Inl e \<Rightarrow> Some (Inl e)
         | Inr s' \<Rightarrow> merge_while_both_h rd lc left right sortBy s')"
      using True by (subst merge_while_both_h.simps) (simp add: el er)
    have unfold: "merge_while_both rd lc ?L ?R sortBy ?st =
        (case merge_body rd lc ?L ?R sortBy ?st of
           Inl e \<Rightarrow> Inl e
         | Inr st' \<Rightarrow> merge_while_both rd lc ?L ?R sortBy st')"
      using True by (subst merge_while_both.simps) (simp add: len)
    show ?thesis
    proof (cases ?c)
      case (Inl e)
      then show ?thesis
        unfolding unfold_h unfold body_h body by simp
    next
      case (Inr c)
      define x where "x = (if c \<le> 0 then ?ls ! leftIdx s else ?rs ! rightIdx s)"
      define s1 where "s1 = (if c \<le> 0
          then s\<lparr>store := h @ [Arr (res @ [x])], leftIdx := leftIdx s + 1\<rparr>
          else s\<lparr>store := h @ [Arr (res @ [x])], rightIdx := rightIdx s + 1\<rparr>)"
      have bh: "merge_body_h rd lc left right sortBy s = Inr s1"
        unfolding body_h Inr s1_def x_def by simp
      have bp: "merge_body rd lc ?L ?R sortBy ?st =
          Inr \<lparr>result = map (objectAt h) (res @ [x]), leftIndex = leftIdx s1,
                rightIndex = rightIdx s1\<rparr>"
        unfolding body Inr s1_def x_def by simp
      have x_in: "x \<in> set ?ls \<union> set ?rs"
        using li ri by (simp add: x_def)
      have s1: "store s1 = h @ [Arr (res @ [x])]" "resultRef s1 = length h"
        "set (res @ [x]) \<subseteq> set ?ls \<union> set ?rs"
        "leftIdx s1 \<le> length ?ls" "rightIdx s1 \<le> length ?rs"
        using less.prems x_in li ri by (auto simp: s1_def)
      have smaller: "(length ?ls - leftIdx s1) + (length ?rs - rightIdx s1)
          < (length ?ls - leftIdx s) + (length ?rs - rightIdx s)"
        using li ri by (auto simp: s1_def)
      from less.hyps[OF smaller s1]
      obtain out where out: "merge_while_both_h rd lc left right sortBy s1 = Some out"
        "case out of
          Inl e \<Rightarrow>
            merge_while_both rd lc ?L ?R sortBy
              \<lparr>result = map (objectAt h) (res @ [x]), leftIndex = leftIdx s1,
                 rightIndex = rightIdx s1\<rparr> = Inl e
        | Inr s' \<Rightarrow>
            resultRef s' = length h \<and> leftIdx s' \<le> length ?ls \<and> rightIdx s' \<le> length ?rs \<and>
            (\<exists>res'. store s' = h @ [Arr res'] \<and> set res' \<subseteq> set ?ls \<union> set ?rs \<and>
               merge_while_both rd lc ?L ?R sortBy
                 \<lparr>result = map (objectAt h) (res @ [x]), leftIndex = leftIdx s1,
                    rightIndex = rightIdx s1\<rparr>
               = Inr \<lparr>result = map (objectAt h) res', leftIndex = leftIdx s',
                       rightIndex = rightIdx s'\<rparr>)"
        by blast
      have "merge_while_both_h rd lc left right sortBy s = Some out"
        unfolding unfold_h bh using out(1) by simp
      moreover have "merge_while_both rd lc ?L ?R sortBy ?st =
          merge_while_both rd lc ?L ?R sortBy
            \<lparr>result = map (objectAt h) (res @ [x]), leftIndex = leftIdx s1,
               rightIndex = rightIdx s1\<rparr>"
        unfolding unfold bp by simp
      ultimately show ?thesis using out(2) by (cases out) auto
    qed
  qed
qed


lemma merge_while_left_h_eq:
  assumes vl: "valid_array h left"
  shows "store s = h @ [Arr res] \<Longrightarrow> resultRef s = length h \<Longrightarrow>
     leftIdx s \<le> length (elems h left) \<Longrightarrow>
     merge_while_left_h left s =
       Some (s\<lparr>store := h @ [Arr (res @ drop (leftIdx s) (elems h left))],
               leftIdx := length (elems h left)\<rparr>)"
proof (induction "length (elems h left) - leftIdx s" arbitrary: s res rule: less_induct)
  case less
  note l = valid_arrayD[OF vl]
  have el: "elems (h @ [Arr res]) left = elems h left"
    using l(1) by (simp add: elems_old)
  show ?case
  proof (cases "leftIdx s < length (elems h left)")
    case True
    let ?s1 = "s\<lparr>store := h @ [Arr (res @ [elems h left ! leftIdx s])],
                  leftIdx := leftIdx s + 1\<rparr>"
    have "merge_while_left_h left s = merge_while_left_h left ?s1"
      using True
      by (subst merge_while_left_h.simps) (simp add: el less.prems(1,2) push_result)
    also have "\<dots> = Some (?s1\<lparr>store := h @ [Arr ((res @ [elems h left ! leftIdx s]) @
          drop (leftIdx ?s1) (elems h left))], leftIdx := length (elems h left)\<rparr>)"
      using True less.prems by (intro less.hyps) auto
    also have "\<dots> = Some (s\<lparr>store := h @ [Arr (res @ drop (leftIdx s) (elems h left))],
          leftIdx := length (elems h left)\<rparr>)"
      using True by (simp add: Cons_nth_drop_Suc)
    finally show ?thesis .
  next
    case False
    with less.prems have "leftIdx s = length (elems h left)" by simp
    then show ?thesis
      using less.prems(1) by (subst merge_while_left_h.simps) (simp add: el)
  qed
qed

lemma merge_while_right_h_eq:
  assumes vr: "valid_array h right"
  shows "store s = h @ [Arr res] \<Longrightarrow> resultRef s = length h \<Longrightarrow>
     rightIdx s \<le> length (elems h right) \<Longrightarrow>
     merge_while_right_h right s =
       Some (s\<lparr>store := h @ [Arr (res @ drop (rightIdx s) (elems h right))],
               rightIdx := length (elems h right)\<rparr>)"
proof (induction "length (elems h right) - rightIdx s" arbitrary: s res rule: less_induct)
  case less
  note r = valid_arrayD[OF vr]
  have er: "elems (h @ [Arr res]) right = elems h right"
    using r(1) by (simp add: elems_old)
  show ?case
  proof (cases "rightIdx s < length (elems h right)")
    case True
    let ?s1 = "s\<lparr>store := h @ [Arr (res @ [elems h right ! rightIdx s])],
                  rightIdx := rightIdx s + 1\<rparr>"
    have "merge_while_right_h right s = merge_while_right_h right ?s1"
      using True
      by (subst merge_while_right_h.simps) (simp add: er less.prems(1,2) push_result)
    also have "\<dots> = Some (?s1\<lparr>store := h @ [Arr ((res @ [elems h right ! rightIdx s]) @
          drop (rightIdx ?s1) (elems h right))], rightIdx := length (elems h right)\<rparr>)"
      using True less.prems by (intro less.hyps) auto
    also have "\<dots> = Some (s\<lparr>store := h @ [Arr (res @ drop (rightIdx s) (elems h right))],
          rightIdx := length (elems h right)\<rparr>)"
      using True by (simp add: Cons_nth_drop_Suc)
    finally show ?thesis .
  next
    case False
    with less.prems have "rightIdx s = length (elems h right)" by simp
    then show ?thesis
      using less.prems(1) by (subst merge_while_right_h.simps) (simp add: er)
  qed
qed

lemma merge_h_sim:
  assumes vl: "valid_array h left" and vr: "valid_array h right"
  shows "\<exists>out. merge_h rd lc h left right sortBy = Some out \<and>
       (case out of
          Inl e \<Rightarrow> merge rd lc (objects h left) (objects h right) sortBy = Inl e
        | Inr (a, h') \<Rightarrow>
            a = length h \<and>
            (\<exists>res. h' = h @ [Arr res] \<and> set res \<subseteq> set (elems h left) \<union> set (elems h right) \<and>
               merge rd lc (objects h left) (objects h right) sortBy =
                 Inr (map (objectAt h) res)))"
proof -
  let ?ls = "elems h left" and ?rs = "elems h right"
  let ?L = "objects h left" and ?R = "objects h right"
  let ?s0 = "\<lparr>store = h @ [Arr []], resultRef = length h, leftIdx = 0, rightIdx = 0\<rparr>"
  let ?st0 = "\<lparr>result = [], leftIndex = 0, rightIndex = 0\<rparr>"
  have start: "merge_h rd lc h left right sortBy =
      Option.bind (merge_while_both_h rd lc left right sortBy ?s0)
        (\<lambda>r. case r of
           Inl e \<Rightarrow> Some (Inl e)
         | Inr s1 \<Rightarrow>
             Option.bind (merge_while_left_h left s1)
               (\<lambda>s2. Option.bind (merge_while_right_h right s2)
                  (\<lambda>s3. Some (Inr (resultRef s3, store s3)))))"
    by (simp add: merge_h_def alloc_def)
  from merge_while_both_h_sim[OF vl vr, of ?s0 "[]" rd lc sortBy]
  obtain out where out: "merge_while_both_h rd lc left right sortBy ?s0 = Some out"
    "case out of
       Inl e \<Rightarrow> merge_while_both rd lc ?L ?R sortBy ?st0 = Inl e
     | Inr s' \<Rightarrow>
         resultRef s' = length h \<and> leftIdx s' \<le> length ?ls \<and> rightIdx s' \<le> length ?rs \<and>
         (\<exists>res'. store s' = h @ [Arr res'] \<and> set res' \<subseteq> set ?ls \<union> set ?rs \<and>
            merge_while_both rd lc ?L ?R sortBy ?st0 =
              Inr \<lparr>result = map (objectAt h) res', leftIndex = leftIdx s',
                    rightIndex = rightIdx s'\<rparr>)"
    by (simp only: list.map list.set empty_subsetI merge_state_h.simps le0) blast
  show ?thesis
  proof (cases out)
    case (Inl e)
    with out start show ?thesis by (simp add: merge_def)
  next
    case (Inr s1)
    with out(2) obtain res1 where s1: "resultRef s1 = length h" "leftIdx s1 \<le> length ?ls"
      "rightIdx s1 \<le> length ?rs" "store s1 = h @ [Arr res1]" "set res1 \<subseteq> set ?ls \<union> set ?rs"
      and pure: "merge_while_both rd lc ?L ?R sortBy ?st0 =
         Inr \<lparr>result = map (objectAt h) res1, leftIndex = leftIdx s1, rightIndex = rightIdx s1\<rparr>"
      by auto
    let ?s2 = "s1\<lparr>store := h @ [Arr (res1 @ drop (leftIdx s1) ?ls)], leftIdx := length ?ls\<rparr>"
    let ?res = "(res1 @ drop (leftIdx s1) ?ls) @ drop (rightIdx s1) ?rs"
    have l2: "merge_while_left_h left s1 = Some ?s2"
      using s1 by (intro merge_while_left_h_eq[OF vl]) auto
    have l3: "merge_while_right_h right ?s2 =
        Some (?s2\<lparr>store := h @ [Arr ?res], rightIdx := length ?rs\<rparr>)"
      using s1 merge_while_right_h_eq[OF vr, of ?s2 "res1 @ drop (leftIdx s1) ?ls"] by simp
    have run: "merge_h rd lc h left right sortBy = Some (Inr (length h, h @ [Arr ?res]))"
      unfolding start out(1) Inr by (simp add: l2 l3 s1)
    have sub: "set ?res \<subseteq> set ?ls \<union> set ?rs"
      using s1(5) by (auto dest: in_set_dropD)
    have len: "leftIdx s1 \<le> length ?L" "rightIdx s1 \<le> length ?R"
      using s1 by (simp_all add: objects_def)
    have "merge rd lc ?L ?R sortBy =
        Inr (map (objectAt h) res1 @ drop (leftIdx s1) ?L @ drop (rightIdx s1) ?R)"
      using len by (simp add: merge_def pure merge_while_left_eq merge_while_right_eq)
    also have "\<dots> = Inr (map (objectAt h) ?res)"
      by (simp add: objects_def drop_map)
    finally show ?thesis using run sub by simp
  qed
qed


lemma objects_alloc:
  assumes "\<forall>e\<in>set es. e < length h"
  shows "objects (h @ [Arr es]) (length h) = map (objectAt h) es"
  using assms by (rule objects_result)

lemma valid_alloc:
  assumes "\<forall>e\<in>set es. e < length h"
  shows "valid_array (h @ [Arr es]) (length h)"
  using assms by (intro valid_arrayI) (auto simp: less_Suc_eq)

lemma mergeSort_unfold:
  assumes "\<not> length items \<le> 1"
  shows "mergeSort rd lc items sortBy =
     (case mergeSort rd lc (take (length items div 2) items) sortBy of
        Inl e \<Rightarrow> Inl e
      | Inr sortedLeft \<Rightarrow>
          (case mergeSort rd lc (drop (length items div 2) items) sortBy of
             Inl e \<Rightarrow> Inl e
           | Inr sortedRight \<Rightarrow> merge rd lc sortedLeft sortedRight sortBy))"
  using assms by (subst mergeSort.simps) (simp add: Let_def slice_def)

lemma mergeSort_h_unfold:
  assumes "\<not> length (elems h items) \<le> 1" "items < length h"
  shows "mergeSort_h rd lc h items sortBy =
     Option.bind
       (mergeSort_h rd lc
          (h @ [Arr (take (length (elems h items) div 2) (elems h items)),
                Arr (drop (length (elems h items) div 2) (elems h items))])
          (length h) sortBy)
       (\<lambda>r1. case r1 of
          Inl e \<Rightarrow> Some (Inl e)
        | Inr (sortedLeft, h3) \<Rightarrow>
            Option.bind (mergeSort_h rd lc h3 (Suc (length h)) sortBy)
              (\<lambda>r2. case r2 of
                 Inl e \<Rightarrow> Some (Inl e)
               | Inr (sortedRight, h4) \<Rightarrow> merge_h rd lc h4 sortedLeft sortedRight sortBy))"
  using assms
  by (subst mergeSort_h.simps) (simp add: Let_def alloc_def slice_def elems_old)

lemma mergeSort_h_sim:
  "valid_array h items \<Longrightarrow>
   \<exists>out. mergeSort_h rd lc h items sortBy = Some out \<and>
     (case out of
        Inl e \<Rightarrow> mergeSort rd lc (objects h items) sortBy = Inl e
      | Inr (a, h') \<Rightarrow>
          prefix h h' \<and> valid_array h' a \<and> (a = items \<or> length h \<le> a) \<and>
          set (elems h' a) \<subseteq> set (elems h items) \<and>
          mergeSort rd lc (objects h items) sortBy = Inr (objects h' a))"
proof (induction "length (elems h items)" arbitrary: h items rule: less_induct)
  case less
  note v = valid_arrayD[OF less.prems]
  let ?es = "elems h items" and ?O = "objects h items"
  have lenO: "length ?O = length ?es" by (simp add: objects_def)
  show ?case
  proof (cases "length ?es \<le> 1")
    case True
    have "mergeSort_h rd lc h items sortBy = Some (Inr (items, h))"
      using True by (subst mergeSort_h.simps) simp
    moreover have "mergeSort rd lc ?O sortBy = Inr ?O"
      using True lenO by (simp add: mergeSort_short)
    ultimately show ?thesis using less.prems by simp
  next
    case False
    let ?m = "length ?es div 2"
    let ?h1 = "h @ [Arr (take ?m ?es)]"
    let ?h2 = "h @ [Arr (take ?m ?es), Arr (drop ?m ?es)]"
    let ?left = "length h" and ?right = "Suc (length h)"
    have h2: "?h2 = ?h1 @ [Arr (drop ?m ?es)]" by simp
    have p02: "prefix h ?h2" by simp
    have in_take: "\<forall>e\<in>set (take ?m ?es). e < length h"
      and in_drop: "\<forall>e\<in>set (drop ?m ?es). e < length h"
      using v(3) by (auto dest: in_set_takeD in_set_dropD)
    have vleft: "valid_array ?h2 ?left"
      using in_take by (intro valid_arrayI[where es = "take ?m ?es"]) (auto simp: nth_append)
    have vright: "valid_array ?h2 ?right"
      using in_drop by (intro valid_arrayI[where es = "drop ?m ?es"]) (auto simp: nth_append)
    have eleft: "elems ?h2 ?left = take ?m ?es" and eright: "elems ?h2 ?right = drop ?m ?es"
      by (simp_all add: elems_def nth_append)
    have oleft: "objects ?h2 ?left = take ?m ?O"
      using in_take by (simp add: objects_def eleft objectAt_old take_map)
    have oright: "objects ?h2 ?right = drop ?m ?O"
      using in_drop by (simp add: objects_def eright objectAt_old drop_map)
    have small: "length (elems ?h2 ?left) < length ?es" "length (elems ?h2 ?right) < length ?es"
      using False by (simp_all add: eleft eright)
    note unfold_h = mergeSort_h_unfold[OF False v(1), of rd lc sortBy]
    have unfold: "mergeSort rd lc ?O sortBy =
       (case mergeSort rd lc (take ?m ?O) sortBy of
          Inl e \<Rightarrow> Inl e
        | Inr sortedLeft \<Rightarrow>
            (case mergeSort rd lc (drop ?m ?O) sortBy of
               Inl e \<Rightarrow> Inl e
             | Inr sortedRight \<Rightarrow> merge rd lc sortedLeft sortedRight sortBy))"
      using False mergeSort_unfold[of ?O rd lc sortBy] unfolding lenO by simp
    from less.hyps[OF small(1) vleft]
    obtain out1 where out1: "mergeSort_h rd lc ?h2 ?left sortBy = Some out1"
      "case out1 of
         Inl e \<Rightarrow> mergeSort rd lc (take ?m ?O) sortBy = Inl e
       | Inr (a, h') \<Rightarrow>
           prefix ?h2 h' \<and> valid_array h' a \<and> (a = ?left \<or> length ?h2 \<le> a) \<and>
           set (elems h' a) \<subseteq> set (take ?m ?es) \<and>
           mergeSort rd lc (take ?m ?O) sortBy = Inr (objects h' a)"
      unfolding oleft eleft by blast
    show ?thesis
    proof (cases out1)
      case (Inl e)
      with out1 unfold_h unfold show ?thesis by simp
    next
      case (Inr p1)
      obtain sl h3 where p1: "p1 = (sl, h3)" by (cases p1)
      from out1(2) Inr p1 have 1: "prefix ?h2 h3" "valid_array h3 sl"
        "set (elems h3 sl) \<subseteq> set (take ?m ?es)"
        "mergeSort rd lc (take ?m ?O) sortBy = Inr (objects h3 sl)"
        by simp_all
      have vright3: "valid_array h3 ?right" using 1(1) vright by (rule prefix_valid)
      have eright3: "elems h3 ?right = drop ?m ?es"
        using prefix_elems[OF 1(1), of ?right] eright by simp
      have oright3: "objects h3 ?right = drop ?m ?O"
        using prefix_objects[OF 1(1) vright] oright by simp
      have small3: "length (elems h3 ?right) < length ?es"
        using False by (simp add: eright3)
      from less.hyps[OF small3 vright3]
      obtain out2 where out2: "mergeSort_h rd lc h3 ?right sortBy = Some out2"
        "case out2 of
           Inl e \<Rightarrow> mergeSort rd lc (drop ?m ?O) sortBy = Inl e
         | Inr (a, h') \<Rightarrow>
             prefix h3 h' \<and> valid_array h' a \<and> (a = ?right \<or> length h3 \<le> a) \<and>
             set (elems h' a) \<subseteq> set (drop ?m ?es) \<and>
             mergeSort rd lc (drop ?m ?O) sortBy = Inr (objects h' a)"
        unfolding oright3 eright3 by blast
      show ?thesis
      proof (cases out2)
        case (Inl e)
        with out1(1) out2 \<open>out1 = Inr p1\<close> p1 1(4) unfold_h unfold show ?thesis by simp
      next
        case Inr2: (Inr p2)
        obtain sr h4 where p2: "p2 = (sr, h4)" by (cases p2)
        from out2(2) Inr2 p2 have 2: "prefix h3 h4" "valid_array h4 sr"
          "set (elems h4 sr) \<subseteq> set (drop ?m ?es)"
          "mergeSort rd lc (drop ?m ?O) sortBy = Inr (objects h4 sr)"
          by simp_all
        have vsl4: "valid_array h4 sl" using 2(1) 1(2) by (rule prefix_valid)
        have esl4: "elems h4 sl = elems h3 sl"
          using prefix_elems[OF 2(1)] valid_arrayD(1)[OF 1(2)] by simp
        have osl4: "objects h4 sl = objects h3 sl"
          using 2(1) 1(2) by (rule prefix_objects)
        have heap_run: "mergeSort_h rd lc h items sortBy = merge_h rd lc h4 sl sr sortBy"
          unfolding unfold_h by (simp add: out1(1) \<open>out1 = Inr p1\<close> p1 out2(1) Inr2 p2)
        have pure_run: "mergeSort rd lc ?O sortBy =
            merge rd lc (objects h4 sl) (objects h4 sr) sortBy"
          unfolding unfold by (simp add: 1(4) 2(4) osl4)
        from merge_h_sim[OF vsl4 2(2), of rd lc sortBy]
        obtain out3 where out3: "merge_h rd lc h4 sl sr sortBy = Some out3"
          "case out3 of
             Inl e \<Rightarrow> merge rd lc (objects h4 sl) (objects h4 sr) sortBy = Inl e
           | Inr (a, h') \<Rightarrow>
               a = length h4 \<and>
               (\<exists>res. h' = h4 @ [Arr res] \<and> set res \<subseteq> set (elems h4 sl) \<union> set (elems h4 sr) \<and>
                  merge rd lc (objects h4 sl) (objects h4 sr) sortBy =
                    Inr (map (objectAt h4) res))"
          by blast
        show ?thesis
        proof (cases out3)
          case (Inl e)
          with out3 heap_run pure_run show ?thesis by simp
        next
          case Inr3: (Inr p3)
          with out3(2) obtain res where p3: "p3 = (length h4, h4 @ [Arr res])"
            and res: "set res \<subseteq> set (elems h4 sl) \<union> set (elems h4 sr)"
            and m: "merge rd lc (objects h4 sl) (objects h4 sr) sortBy =
                Inr (map (objectAt h4) res)"
            by (cases p3) auto
          have old: "\<forall>e\<in>set res. e < length h4"
            using res valid_arrayD(3)[OF vsl4] valid_arrayD(3)[OF 2(2)] by auto
          have p04: "prefix h h4"
            using p02 1(1) 2(1) by (meson prefix_order.trans)
          have "prefix h (h4 @ [Arr res])"
            using p04 by (simp add: prefix_prefix)
          moreover have "valid_array (h4 @ [Arr res]) (length h4)"
            using old by (rule valid_alloc)
          moreover have "length h \<le> length h4"
            using p04 by (rule prefix_length_le)
          moreover have "set (elems (h4 @ [Arr res]) (length h4)) \<subseteq> set ?es"
            using res 1(3) 2(3) esl4 by (auto simp: elems_result dest: in_set_takeD in_set_dropD)
          moreover have "mergeSort rd lc ?O sortBy = Inr (objects (h4 @ [Arr res]) (length h4))"
            using old by (simp add: pure_run m objects_result)
          ultimately show ?thesis
            using heap_run out3(1) Inr3 p3 by simp
        qed
      qed
    qed
  qed
qed


lemma copy_each_eq:
  "\<forall>e\<in>set es. e < length h \<Longrightarrow>
   copy_each h es = ([length h ..< length h + length es], h @ map (\<lambda>e. Obj (objectAt h e)) es)"
proof (induction es arbitrary: h)
  case Nil
  show ?case by simp
next
  case (Cons p ps)
  let ?h1 = "h @ [Obj (objectAt h p)]"
  have "\<forall>e\<in>set ps. e < length ?h1" using Cons.prems by auto
  from Cons.IH[OF this]
  have rest: "copy_each ?h1 ps =
      ([Suc (length h) ..< Suc (length h) + length ps], ?h1 @ map (\<lambda>e. Obj (objectAt ?h1 e)) ps)"
    by simp
  have same: "map (\<lambda>e. Obj (objectAt ?h1 e)) ps = map (\<lambda>e. Obj (objectAt h e)) ps"
    using Cons.prems by (intro map_cong refl) (simp add: objectAt_old)
  have up: "[length h ..< length h + length (p # ps)] =
      length h # [Suc (length h) ..< Suc (length h) + length ps]"
    using upt_conv_Cons[of "length h" "length h + Suc (length ps)"] by simp
  have "copy_each h (p # ps) = (length h # fst (copy_each ?h1 ps), snd (copy_each ?h1 ps))"
    by (simp add: alloc_def copy_same split_def Let_def)
  then show ?case
    unfolding rest same up by simp
qed

lemma map_copy_eq:
  assumes "valid_array h a"
  shows "map_copy h a =
     (length h + length (elems h a),
      (h @ map (\<lambda>e. Obj (objectAt h e)) (elems h a)) @
        [Arr [length h ..< length h + length (elems h a)]])"
  using valid_arrayD(3)[OF assms] by (simp add: map_copy_def copy_each_eq alloc_def)

lemma objects_copy:
  assumes "\<forall>e\<in>set es. e < length h"
  shows "map (objectAt (h @ map (\<lambda>e. Obj (objectAt h e)) es)) [length h ..< length h + length es]
     = map (objectAt h) es"
proof (rule nth_equalityI)
  show "length (map (objectAt (h @ map (\<lambda>e. Obj (objectAt h e)) es))
      [length h ..< length h + length es]) = length (map (objectAt h) es)"
    by simp
next
  fix i assume "i < length (map (objectAt (h @ map (\<lambda>e. Obj (objectAt h e)) es))
      [length h ..< length h + length es])"
  then have i: "i < length es" by simp
  then show "map (objectAt (h @ map (\<lambda>e. Obj (objectAt h e)) es))
      [length h ..< length h + length es] ! i = map (objectAt h) es ! i"
    by (simp add: objectAt_def nth_append)
qed

lemma sortBy_h_sim:
  assumes v: "valid_array h a"
  shows "\<exists>out. (if length (elems h a) = 0 then Some (Inr (alloc h (Arr [])))
               else (let (productsCopy, h1) = map_copy h a
                     in mergeSort_h rd lc h1 productsCopy sortBy)) = Some out \<and>
     (case out of
        Inl e \<Rightarrow> mergeSort rd lc (objects h a) sortBy = Inl e
      | Inr (res, h') \<Rightarrow>
          prefix h h' \<and> length h \<le> res \<and> valid_array h' res \<and>
          (\<forall>e\<in>set (elems h' res). length h \<le> e) \<and>
          mergeSort rd lc (objects h a) sortBy = Inr (objects h' res))"
proof (cases "length (elems h a) = 0")
  case True
  then have "objects h a = []" by (simp add: objects_def)
  moreover have "valid_array (h @ [Arr []]) (length h)"
    by (rule valid_alloc) simp
  ultimately show ?thesis
    using True by (simp add: alloc_def mergeSort_short elems_result objects_def)
next
  case False
  let ?es = "elems h a"
  let ?h1 = "h @ map (\<lambda>e. Obj (objectAt h e)) ?es"
  let ?as = "[length h ..< length h + length ?es]"
  let ?hc = "?h1 @ [Arr ?as]" and ?c = "length h + length ?es"
  note va = valid_arrayD[OF v]
  have c: "?c = length ?h1" by simp
  have fresh: "\<forall>e\<in>set ?as. e < length ?h1" by simp
  have vc: "valid_array ?hc ?c"
    using valid_alloc[of ?as ?h1] by simp
  have "objects ?hc ?c = map (objectAt ?h1) ?as"
    using objects_result[of ?as ?h1] by simp
  also have "\<dots> = objects h a"
    using va(3) by (simp add: objects_copy objects_def)
  finally have oc: "objects ?hc ?c = objects h a" .
  have ec: "elems ?hc ?c = ?as"
    using elems_result[of ?h1 ?as] by simp
  from mergeSort_h_sim[OF vc, of rd lc sortBy]
  obtain out where out: "mergeSort_h rd lc ?hc ?c sortBy = Some out"
    "case out of
       Inl e \<Rightarrow> mergeSort rd lc (objects h a) sortBy = Inl e
     | Inr (r, h') \<Rightarrow>
         prefix ?hc h' \<and> valid_array h' r \<and> (r = ?c \<or> length ?hc \<le> r) \<and>
         set (elems h' r) \<subseteq> set ?as \<and>
         mergeSort rd lc (objects h a) sortBy = Inr (objects h' r)"
    unfolding oc ec by blast
  have run: "(if length (elems h a) = 0 then Some (Inr (alloc h (Arr [])))
       else (let (productsCopy, h1) = map_copy h a
             in mergeSort_h rd lc h1 productsCopy sortBy)) = Some out"
    using False out(1) by (simp add: map_copy_eq[OF v])
  show ?thesis
  proof (cases out)
    case (Inl e)
    with out(2) run show ?thesis by simp
  next
    case (Inr p)
    obtain r h' where p: "p = (r, h')" by (cases p)
    from out(2) Inr p have 1: "prefix ?hc h'" "valid_array h' r" "r = ?c \<or> length ?hc \<le> r"
      "set (elems h' r) \<subseteq> set ?as" "mergeSort rd lc (objects h a) sortBy = Inr (objects h' r)"
      by simp_all
    have "prefix h ?hc" by simp
    then have "prefix h h'" using 1(1) by (meson prefix_order.trans)
    moreover have "length h \<le> r" using 1(3) by auto
    moreover have "\<forall>e\<in>set (elems h' r). length h \<le> e" using 1(4) by auto
    ultimately show ?thesis using run Inr p 1(2,5) by simp
  qed
qed

lemma sortByPrice_h_array:
  assumes "valid_array h a"
  shows "sortByPrice_h rd lc h (Reference a) =
     (if length (elems h a) = 0 then Some (Inr (alloc h (Arr [])))
      else (let (productsCopy, h1) = map_copy h a
            in mergeSort_h rd lc h1 productsCopy Price))"
  using valid_arrayD(2)[OF assms] by (simp add: sortByPrice_h_def)

lemma sortByName_h_array:
  assumes "valid_array h a"
  shows "sortByName_h rd lc h (Reference a) =
     (if length (elems h a) = 0 then Some (Inr (alloc h (Arr [])))
      else (let (productsCopy, h1) = map_copy h a
            in mergeSort_h rd lc h1 productsCopy Name))"
  using valid_arrayD(2)[OF assms] by (simp add: sortByName_h_def)

lemma sortBy_h_short:
  assumes v: "valid_array h a" and short: "length (elems h a) \<le> 1"
  shows "\<exists>res h'.
     (if length (elems h a) = 0 then Some (Inr (alloc h (Arr [])))
      else (let (productsCopy, h1) = map_copy h a
            in mergeSort_h rd lc h1 productsCopy sortBy)) = Some (Inr (res, h')) \<and>
     take (length h) h' = h \<and> length h \<le> res \<and> res < length h' \<and>
     (\<forall>e\<in>set (elems h' res). length h \<le> e \<and> e < length h') \<and>
     objects h' res = objects h a"
proof -
  have pure: "mergeSort rd lc (objects h a) sortBy = Inr (objects h a)"
    using short by (intro mergeSort_short) (simp add: objects_def)
  from sortBy_h_sim[OF v, of rd lc sortBy]
  obtain out where out:
    "(if length (elems h a) = 0 then Some (Inr (alloc h (Arr [])))
      else (let (productsCopy, h1) = map_copy h a
            in mergeSort_h rd lc h1 productsCopy sortBy)) = Some out"
    "case out of
       Inl e \<Rightarrow> mergeSort rd lc (objects h a) sortBy = Inl e
     | Inr (res, h') \<Rightarrow>
         prefix h h' \<and> length h \<le> res \<and> valid_array h' res \<and>
         (\<forall>e\<in>set (elems h' res). length h \<le> e) \<and>
         mergeSort rd lc (objects h a) sortBy = Inr (objects h' res)"
    by blast
  show ?thesis
  proof (cases out)
    case (Inl e)
    with out(2) pure show ?thesis by simp
  next
    case (Inr p)
    obtain res h' where p: "p = (res, h')" by (cases p)
    from out(2) Inr p pure have 1: "prefix h h'" "length h \<le> res" "valid_array h' res"
      "\<forall>e\<in>set (elems h' res). length h \<le> e" "objects h' res = objects h a"
      by simp_all
    from 1 valid_arrayD[OF 1(3)] out(1) Inr p show ?thesis
      by (auto simp: prefix_def)
  qed
qed

section \<open>The claims\<close>

text \<open>
  Claim C1. For every sequence of products whose selected keys are well-formed (every
  price parses to a number, every name is a string) \<open>mergeSort\<close> returns an output, and
  every pair of adjacent elements \<open>(a, b)\<close> of it satisfies \<open>key(a) <= key(b)\<close> under the
  chosen comparison: the parsed prices are in \<^verbatim>\<open><=\<close>, or \<^verbatim>\<open>localeCompare\<close> of the names is
  not positive. For names the platform's comparison is taken to be an ordering
  (\<open>consistent\<close>).
\<close>

theorem mergeSort_ordered:
  assumes "\<forall>p\<in>set items. wellFormed rd sortBy p" and "sortBy = Name \<longrightarrow> consistent lc"
  shows "\<exists>out. mergeSort rd lc items sortBy = Inr out \<and>
           (\<forall>i. Suc i < length out \<longrightarrow> leq rd lc sortBy (out ! i) (out ! Suc i))"
proof -
  let ?out = "sort_by (leq rd lc sortBy) items"
  have "sorted_wrt (leq rd lc sortBy) ?out"
    using assms by (rule sorted_sort_by_leq)
  then have "\<forall>i. Suc i < length ?out \<longrightarrow> leq rd lc sortBy (?out ! i) (?out ! Suc i)"
    by (simp add: sorted_wrt_iff_nth_less)
  then show ?thesis
    using mergeSort_wellFormed[OF assms(1)] by blast
qed

theorem mergeSort_ordered_witness:
  "list_all (wellFormed readNothing Name)
     [defaultProducts ! 3, defaultProducts ! 7, defaultProducts ! 4] \<and>
   consistent charCompare \<and>
   (\<exists>out. mergeSort readNothing charCompare
            [defaultProducts ! 3, defaultProducts ! 7, defaultProducts ! 4] Name = Inr out \<and>
          (\<forall>i. Suc i < length out \<longrightarrow>
             leq readNothing charCompare Name (out ! i) (out ! Suc i))) \<and>
   mergeSort readNothing charCompare
     [defaultProducts ! 3, defaultProducts ! 7, defaultProducts ! 4] Name =
     Inr [defaultProducts ! 4, defaultProducts ! 7, defaultProducts ! 3]"
proof -
  let ?items = "[defaultProducts ! 3, defaultProducts ! 7, defaultProducts ! 4]"
  have wf: "\<forall>p\<in>set ?items. wellFormed readNothing Name p"
    by (simp add: defaultProducts_def newProduct_def)
  have run: "mergeSort readNothing charCompare ?items Name =
      Inr [defaultProducts ! 4, defaultProducts ! 7, defaultProducts ! 3]"
    by code_simp
  from mergeSort_ordered[OF wf, where lc = charCompare] charCompare_consistent wf run
  show ?thesis by (simp only: list_all_iff simp_thms)
qed

text \<open>
  Claim C2. Whatever the input and the keys in it: when \<open>mergeSort\<close> returns, its output
  has the same multiset of elements as the input (none added, dropped or duplicated), and
  the same length. It returns for every input sorted by price. Sorted by name it can do
  one other thing, throw the \<open>TypeError\<close> of a \<^verbatim>\<open>localeCompare\<close> called on a name that is
  not a string, and then there is no output.
\<close>

theorem mergeSort_permutation:
  "case mergeSort rd lc items sortBy of
     Inr out \<Rightarrow> mset out = mset items \<and> length out = length items
   | Inl e \<Rightarrow> sortBy = Name \<and> (\<exists>p\<in>set items. \<not> wellFormed rd Name p)"
proof (cases "mergeSort rd lc items sortBy")
  case (Inl e)
  with mergeSort_cases(2)[OF Inl] show ?thesis by simp
next
  case (Inr out)
  from mergeSort_cases(1)[OF Inr] have "mset out = mset items" .
  moreover from this have "length out = length items" by (rule mset_eq_length)
  ultimately show ?thesis using Inr by simp
qed

theorem mergeSort_permutation_witness:
  "mset [defaultProducts ! 1, defaultProducts ! 2, defaultProducts ! 0] =
     mset (take 3 defaultProducts) \<and>
   mergeSort readNothing charCompare (take 3 defaultProducts) Price =
     Inr [defaultProducts ! 1, defaultProducts ! 2, defaultProducts ! 0]"
proof -
  have run: "mergeSort readNothing charCompare (take 3 defaultProducts) Price =
      Inr [defaultProducts ! 1, defaultProducts ! 2, defaultProducts ! 0]"
    by code_simp
  from mergeSort_permutation[where rd = readNothing and lc = charCompare
      and items = "take 3 defaultProducts" and sortBy = Price] run
  show ?thesis by simp
qed

text \<open>
  Claim C3, as amended. For every sequence whose selected keys are well-formed,
  \<open>mergeSort\<close> is stable: for every product \<open>c\<close>, the elements whose key compares equal
  to the key of \<open>c\<close> stand in the output in the order they have in the input. And, whatever
  the input, on a tie the first loop of \<open>merge\<close> pushes the left-hand element.
\<close>

theorem mergeSort_stable:
  assumes "\<forall>p\<in>set items. wellFormed rd sortBy p" and "sortBy = Name \<longrightarrow> consistent lc"
  shows "(\<exists>out. mergeSort rd lc items sortBy = Inr out \<and>
            (\<forall>c. filter (sameKey rd lc sortBy c) out = filter (sameKey rd lc sortBy c) items)) \<and>
         (\<forall>left right st. sameKey rd lc sortBy (left ! leftIndex st) (right ! rightIndex st) \<longrightarrow>
            merge_body rd lc left right sortBy st =
              Inr (st\<lparr>result := result st @ [left ! leftIndex st],
                      leftIndex := leftIndex st + 1\<rparr>))"
proof -
  have "mergeSort rd lc items sortBy = Inr (sort_by (leq rd lc sortBy) items)"
    using assms(1) by (rule mergeSort_wellFormed)
  moreover have "filter (sameKey rd lc sortBy c) (sort_by (leq rd lc sortBy) items) =
      filter (sameKey rd lc sortBy c) items" for c
    using assms by (rule filter_sort_by_leq)
  moreover have "merge_body rd lc left right sortBy st =
      Inr (st\<lparr>result := result st @ [left ! leftIndex st], leftIndex := leftIndex st + 1\<rparr>)"
    if "sameKey rd lc sortBy (left ! leftIndex st) (right ! rightIndex st)" for left right st
    using that
    by (cases sortBy)
       (auto simp: merge_body_def comparison_def Let_def js_le_refl split: jsval.splits)
  ultimately show ?thesis by blast
qed

theorem mergeSort_stable_witness:
  "list_all (wellFormed readNothing Name) sameNames \<and> consistent charCompare \<and>
   (\<exists>out. mergeSort readNothing charCompare sameNames Name = Inr out \<and>
      (\<forall>c. filter (sameKey readNothing charCompare Name c) out =
           filter (sameKey readNothing charCompare Name c) sameNames)) \<and>
   mergeSort readNothing charCompare sameNames Name =
     Inr [sameNames ! 1, sameNames ! 0, sameNames ! 2] \<and>
   sameKey readNothing charCompare Name (sameNames ! 0) (sameNames ! 2)"
proof -
  have wf: "\<forall>p\<in>set sameNames. wellFormed readNothing Name p"
    by (simp add: sameNames_def newProduct_def)
  have run: "mergeSort readNothing charCompare sameNames Name =
      Inr [sameNames ! 1, sameNames ! 0, sameNames ! 2]"
    by code_simp
  have tie: "sameKey readNothing charCompare Name (sameNames ! 0) (sameNames ! 2)"
    by code_simp
  from mergeSort_stable[OF wf, where lc = charCompare] charCompare_consistent wf run tie
  show ?thesis by (simp only: list_all_iff simp_thms)
qed

text \<open>
  The claim as it stands, for every input, fails where a price does not parse: of four
  products priced 1, nothing, 0 and 1, the two that cost 1 come out in the other order.
\<close>

theorem mergeSort_stable_counterexample:
  "sortByPrice readNothing charCompare (AnArray unpriced) =
     Inr [unpriced ! 2, unpriced ! 3, unpriced ! 1, unpriced ! 0] \<and>
   filter (sameKey readNothing charCompare Price (unpriced ! 0)) unpriced =
     [unpriced ! 0, unpriced ! 3] \<and>
   filter (sameKey readNothing charCompare Price (unpriced ! 0))
     [unpriced ! 2, unpriced ! 3, unpriced ! 1, unpriced ! 0] =
     [unpriced ! 3, unpriced ! 0] \<and>
   unpriced ! 0 \<noteq> unpriced ! 3"
  by code_simp

text \<open>
  Claim C4, as amended. On products whose fields hold primitive values (\<^verbatim>\<open>undefined\<close>,
  \<^verbatim>\<open>null\<close>, a boolean, a number or a string: the values of \<open>jsval\<close>) \<open>sortByPrice\<close> signals
  no fault, whether the prices parse or not: the comparison of two such products by price
  never throws, and for every array of them \<open>sortByPrice\<close> returns a permutation of the
  array. (A price that does not parse is \<open>NaN\<close>, every \<^verbatim>\<open><=\<close> with it is false, and the loop
  pushes the right-hand element.) Prices that are Symbols or objects, which
  \<^verbatim>\<open>parseFloat\<close> may fail to convert to a string, are not values of \<open>jsval\<close> and the
  statement does not cover them.
\<close>

theorem sortByPrice_total:
  "(\<exists>c. comparison rd lc Price l r = Inr c) \<and>
   (\<exists>out. sortByPrice rd lc (AnArray ps) = Inr out \<and> mset out = mset ps)"
proof
  show "\<exists>c. comparison rd lc Price l r = Inr c"
    by (simp add: comparison_def Let_def)
  show "\<exists>out. sortByPrice rd lc (AnArray ps) = Inr out \<and> mset out = mset ps"
  proof (cases "mergeSort rd lc ps Price")
    case (Inl e)
    from mergeSort_cases(2)[OF Inl] show ?thesis by simp
  next
    case (Inr out)
    from mergeSort_cases(1)[OF Inr] Inr show ?thesis
      by (simp add: sortByPrice_mergeSort)
  qed
qed

text \<open>Scenario 5 of the specification, \<^verbatim>\<open>sort([{price:"abc"}], price)\<close>, returns the array;
  so does an array in which the unparsable price meets another one.\<close>

theorem sortByPrice_invalid_key_counterexample:
  "parseFloat readNothing (price abcProduct) = NaN \<and>
   sortByPrice readNothing charCompare (AnArray [abcProduct]) = Inr [abcProduct] \<and>
   sortByPrice readNothing charCompare (AnArray [abcProduct, defaultProducts ! 0]) =
     Inr [defaultProducts ! 0, abcProduct]"
  by code_simp

text \<open>
  Claim C6, as amended. Given something that is not an array, \<open>sortByPrice\<close> and
  \<open>sortByName\<close> raise nothing: they return the empty array.
\<close>

theorem sortBy_not_an_array:
  "sortByPrice rd lc NotAnArray = Inr [] \<and> sortByName rd lc NotAnArray = Inr []"
  by (simp add: sortByPrice_def sortByName_def)

theorem sortBy_invalid_input_counterexample:
  "sortByPrice readNothing charCompare NotAnArray \<noteq> Inl TypeError \<and>
   sortByName readNothing charCompare NotAnArray \<noteq> Inl TypeError \<and>
   sortByPrice readNothing charCompare NotAnArray = Inr []"
  by (simp add: sortByPrice_def sortByName_def)

text \<open>
  Claim C7, as amended. For every sequence whose selected keys are well-formed, sorting
  is idempotent: sorting the output again returns the output, for \<open>mergeSort\<close> and for
  the entry point of the key.
\<close>

theorem mergeSort_idempotent:
  assumes "\<forall>p\<in>set items. wellFormed rd sortBy p" and "sortBy = Name \<longrightarrow> consistent lc"
  shows "\<exists>out. mergeSort rd lc items sortBy = Inr out \<and> mergeSort rd lc out sortBy = Inr out \<and>
           (sortBy = Price \<longrightarrow> sortByPrice rd lc (AnArray items) = Inr out \<and>
                                sortByPrice rd lc (AnArray out) = Inr out) \<and>
           (sortBy = Name \<longrightarrow> sortByName rd lc (AnArray items) = Inr out \<and>
                               sortByName rd lc (AnArray out) = Inr out)"
proof -
  let ?out = "sort_by (leq rd lc sortBy) items"
  have first: "mergeSort rd lc items sortBy = Inr ?out"
    using assms(1) by (rule mergeSort_wellFormed)
  have "\<forall>p\<in>set ?out. wellFormed rd sortBy p"
    using assms(1) by (simp add: set_sort_by)
  then have "mergeSort rd lc ?out sortBy = Inr (sort_by (leq rd lc sortBy) ?out)"
    by (rule mergeSort_wellFormed)
  moreover have "sort_by (leq rd lc sortBy) ?out = ?out"
    using assms by (intro sort_by_sorted sorted_sort_by_leq)
  ultimately have second: "mergeSort rd lc ?out sortBy = Inr ?out"
    by simp
  from first second show ?thesis
    by (auto simp: sortByPrice_mergeSort sortByName_mergeSort)
qed

theorem mergeSort_idempotent_witness:
  "list_all (wellFormed readNothing Price) (take 3 defaultProducts) \<and>
   (\<exists>out. mergeSort readNothing charCompare (take 3 defaultProducts) Price = Inr out \<and>
          mergeSort readNothing charCompare out Price = Inr out \<and>
          sortByPrice readNothing charCompare (AnArray (take 3 defaultProducts)) = Inr out \<and>
          sortByPrice readNothing charCompare (AnArray out) = Inr out) \<and>
   sortByPrice readNothing charCompare (AnArray (take 3 defaultProducts)) =
     Inr [defaultProducts ! 1, defaultProducts ! 2, defaultProducts ! 0]"
proof -
  have wf: "\<forall>p\<in>set (take 3 defaultProducts). wellFormed readNothing Price p"
    by (simp add: defaultProducts_def newProduct_def parseFloat_def)
  have run: "sortByPrice readNothing charCompare (AnArray (take 3 defaultProducts)) =
      Inr [defaultProducts ! 1, defaultProducts ! 2, defaultProducts ! 0]"
    by code_simp
  from mergeSort_idempotent[OF wf, where lc = charCompare] wf run
  show ?thesis by (simp only: list_all_iff simp_thms sortKey.distinct)
qed

text \<open>
  The claim as it stands, for every sequence, fails where a price does not parse: a
  product without a price followed by one that costs 1 is sorted into the other order,
  and sorting that puts them back.
\<close>

theorem mergeSort_idempotent_counterexample:
  "sortByPrice readNothing charCompare (AnArray [unpriced ! 1, unpriced ! 0]) =
     Inr [unpriced ! 0, unpriced ! 1] \<and>
   sortByPrice readNothing charCompare (AnArray [unpriced ! 0, unpriced ! 1]) =
     Inr [unpriced ! 1, unpriced ! 0] \<and>
   [unpriced ! 0, unpriced ! 1] \<noteq> [unpriced ! 1, unpriced ! 0]"
  by code_simp

text \<open>
  Claim C8. The empty sequence sorts to the empty sequence and a singleton \<open>[x]\<close> to
  \<open>[x]\<close>, equal element for element, for \<open>mergeSort\<close> with either key and for both entry
  points. On the heap the entry points return, for an array of at most one element, a new
  array (a copy) that holds the same products, and leave every cell there was as it is.
\<close>

theorem sort_empty_singleton:
  "mergeSort rd lc [] sortBy = Inr [] \<and> mergeSort rd lc [x] sortBy = Inr [x] \<and>
   sortByPrice rd lc (AnArray []) = Inr [] \<and> sortByPrice rd lc (AnArray [x]) = Inr [x] \<and>
   sortByName rd lc (AnArray []) = Inr [] \<and> sortByName rd lc (AnArray [x]) = Inr [x] \<and>
   (valid_array h a \<and> length (elems h a) \<le> 1 \<longrightarrow>
      (\<exists>res h'. sortByPrice_h rd lc h (Reference a) = Some (Inr (res, h')) \<and>
         take (length h) h' = h \<and> length h \<le> res \<and> objects h' res = objects h a) \<and>
      (\<exists>res h'. sortByName_h rd lc h (Reference a) = Some (Inr (res, h')) \<and>
         take (length h) h' = h \<and> length h \<le> res \<and> objects h' res = objects h a))"
proof -
  have on_values: "mergeSort rd lc [] sortBy = Inr [] \<and> mergeSort rd lc [x] sortBy = Inr [x] \<and>
      sortByPrice rd lc (AnArray []) = Inr [] \<and> sortByPrice rd lc (AnArray [x]) = Inr [x] \<and>
      sortByName rd lc (AnArray []) = Inr [] \<and> sortByName rd lc (AnArray [x]) = Inr [x]"
    by (simp add: sortByPrice_mergeSort sortByName_mergeSort mergeSort_short)
  have on_heap: "(\<exists>res h'. sortByPrice_h rd lc h (Reference a) = Some (Inr (res, h')) \<and>
         take (length h) h' = h \<and> length h \<le> res \<and> objects h' res = objects h a) \<and>
      (\<exists>res h'. sortByName_h rd lc h (Reference a) = Some (Inr (res, h')) \<and>
         take (length h) h' = h \<and> length h \<le> res \<and> objects h' res = objects h a)"
    if "valid_array h a \<and> length (elems h a) \<le> 1"
  proof -
    from that have v: "valid_array h a" and short: "length (elems h a) \<le> 1" by simp_all
    from sortBy_h_short[OF v short, of rd lc Price] sortBy_h_short[OF v short, of rd lc Name]
    show ?thesis
      unfolding sortByPrice_h_array[OF v] sortByName_h_array[OF v] by blast
  qed
  from on_values on_heap show ?thesis by blast
qed

theorem sort_empty_singleton_witness:
  "valid_array [Obj abcProduct, Arr [0]] 1 \<and> length (elems [Obj abcProduct, Arr [0]] 1) \<le> 1 \<and>
   (\<exists>res h'. sortByPrice_h readNothing charCompare [Obj abcProduct, Arr [0]] (Reference 1) =
        Some (Inr (res, h')) \<and>
      take (length [Obj abcProduct, Arr [0]]) h' = [Obj abcProduct, Arr [0]] \<and>
      length [Obj abcProduct, Arr [0]] \<le> res \<and>
      objects h' res = objects [Obj abcProduct, Arr [0]] 1) \<and>
   sortByPrice_h readNothing charCompare [Obj abcProduct, Arr [0]] (Reference 1) =
     Some (Inr (3, [Obj abcProduct, Arr [0], Obj abcProduct, Arr [2]])) \<and>
   sortByPrice readNothing charCompare (AnArray [abcProduct]) = Inr [abcProduct]"
proof -
  have v: "valid_array [Obj abcProduct, Arr [0]] 1 \<and>
      length (elems [Obj abcProduct, Arr [0]] 1) \<le> 1"
    by (simp add: valid_array_def elems_def)
  have run: "sortByPrice_h readNothing charCompare [Obj abcProduct, Arr [0]] (Reference 1) =
     Some (Inr (3, [Obj abcProduct, Arr [0], Obj abcProduct, Arr [2]]))"
    by code_simp
  from sort_empty_singleton[where h = "[Obj abcProduct, Arr [0]]" and a = 1
      and rd = readNothing and lc = charCompare and x = abcProduct] v run
  show ?thesis by blast
qed

text \<open>
  Claim C9. \<open>mergeSort\<close> refines the reference algorithm of the specification: on every
  sequence whose selected keys are well-formed (the inputs the reference algorithm is
  defined for) it returns what \<open>spec_sort\<close> returns. Its structure is the reference's on
  every input: a sequence of length at least 2 is split at \<open>floor(n/2)\<close> into the first
  half and the remainder, whatever the keys, each half is sorted with the same key and
  the two are merged; and once the first loop of \<open>merge\<close> has exhausted one half, the
  result is what it has pushed, then the rest of the left half, then the rest of the right
  half, each in its order.
\<close>

theorem mergeSort_refines_spec_sort:
  assumes "\<forall>p\<in>set items. wellFormed rd sortBy p" and "sortBy = Name \<longrightarrow> consistent lc"
  shows "mergeSort rd lc items sortBy = Inr (spec_sort (spec_lesser rd lc sortBy) items) \<and>
    (\<forall>xs. 2 \<le> length xs \<longrightarrow>
       mergeSort rd lc xs sortBy =
         (case mergeSort rd lc (take (length xs div 2) xs) sortBy of
            Inl e \<Rightarrow> Inl e
          | Inr sortedLeft \<Rightarrow>
              (case mergeSort rd lc (drop (length xs div 2) xs) sortBy of
                 Inl e \<Rightarrow> Inl e
               | Inr sortedRight \<Rightarrow> merge rd lc sortedLeft sortedRight sortBy))) \<and>
    (\<forall>left right st'.
       merge_while_both rd lc left right sortBy \<lparr>result = [], leftIndex = 0, rightIndex = 0\<rparr>
         = Inr st' \<longrightarrow>
       (leftIndex st' = length left \<or> rightIndex st' = length right) \<and>
       merge rd lc left right sortBy =
         Inr (result st' @ drop (leftIndex st') left @ drop (rightIndex st') right))"
proof (intro conjI allI impI)
  have "sort_by (leq rd lc sortBy) items = spec_sort (spec_lesser rd lc sortBy) items"
  proof (rule sort_by_spec_sort[where A = "{p. wellFormed rd sortBy p}"])
    fix a b assume "a \<in> {p. wellFormed rd sortBy p}" "b \<in> {p. wellFormed rd sortBy p}"
    then show "leq rd lc sortBy a b \<longleftrightarrow>
        (spec_lesser rd lc sortBy a b \<or> \<not> spec_lesser rd lc sortBy b a)"
      using leq_lesser[OF assms(2)] by simp
  next
    show "set items \<subseteq> {p. wellFormed rd sortBy p}" using assms(1) by auto
  qed
  with mergeSort_wellFormed[OF assms(1)]
  show "mergeSort rd lc items sortBy = Inr (spec_sort (spec_lesser rd lc sortBy) items)"
    by simp
next
  fix xs :: "Product list" assume "2 \<le> length xs"
  then have "\<not> length xs \<le> 1" by simp
  then show "mergeSort rd lc xs sortBy =
         (case mergeSort rd lc (take (length xs div 2) xs) sortBy of
            Inl e \<Rightarrow> Inl e
          | Inr sortedLeft \<Rightarrow>
              (case mergeSort rd lc (drop (length xs div 2) xs) sortBy of
                 Inl e \<Rightarrow> Inl e
               | Inr sortedRight \<Rightarrow> merge rd lc sortedLeft sortedRight sortBy))"
    by (rule mergeSort_unfold)
next
  fix left right st'
  assume loop: "merge_while_both rd lc left right sortBy
      \<lparr>result = [], leftIndex = 0, rightIndex = 0\<rparr> = Inr st'"
  from merge_while_both_inv[OF _ _ loop]
  have le: "leftIndex st' \<le> length left" "rightIndex st' \<le> length right" by simp_all
  with merge_while_both_exit[OF loop]
  show "leftIndex st' = length left \<or> rightIndex st' = length right" by auto
  show "merge rd lc left right sortBy =
      Inr (result st' @ drop (leftIndex st') left @ drop (rightIndex st') right)"
    using le by (simp add: merge_def loop merge_while_left_eq merge_while_right_eq)
qed

theorem mergeSort_refines_spec_sort_witness:
  "list_all (wellFormed readNothing Name) sameNames \<and> consistent charCompare \<and>
   mergeSort readNothing charCompare sameNames Name =
     Inr (spec_sort (spec_lesser readNothing charCompare Name) sameNames) \<and>
   spec_sort (spec_lesser readNothing charCompare Name) sameNames =
     [sameNames ! 1, sameNames ! 0, sameNames ! 2]"
proof -
  have wf: "\<forall>p\<in>set sameNames. wellFormed readNothing Name p"
    by (simp add: sameNames_def newProduct_def)
  have run: "spec_sort (spec_lesser readNothing charCompare Name) sameNames =
      [sameNames ! 1, sameNames ! 0, sameNames ! 2]"
    by code_simp
  from mergeSort_refines_spec_sort[OF wf, where lc = charCompare] charCompare_consistent wf run
  show ?thesis by (simp only: list_all_iff simp_thms)
qed

text \<open>
  Claim C5. \<open>sortByPrice\<close> and \<open>sortByName\<close> have no side effects. Called on a well-formed
  array in any heap, each returns or, for names only, throws. When it returns, every cell
  that was in the heap before the call (the input array and every element of it among
  them) is the same after it; the array returned is a new one, its elements are new
  objects, and they hold what the function on values returns for the products of the
  input.
\<close>

theorem sortBy_h_no_side_effects:
  assumes "valid_array h a"
  shows "(\<exists>res h'. sortByPrice_h rd lc h (Reference a) = Some (Inr (res, h')) \<and>
            take (length h) h' = h \<and> length h \<le> res \<and> res < length h' \<and>
            (\<forall>e\<in>set (elems h' res). length h \<le> e \<and> e < length h') \<and>
            sortByPrice rd lc (AnArray (objects h a)) = Inr (objects h' res)) \<and>
         (\<exists>out. sortByName_h rd lc h (Reference a) = Some out \<and>
            (case out of
               Inl e \<Rightarrow> sortByName rd lc (AnArray (objects h a)) = Inl e
             | Inr (res, h') \<Rightarrow>
                 take (length h) h' = h \<and> length h \<le> res \<and> res < length h' \<and>
                 (\<forall>e\<in>set (elems h' res). length h \<le> e \<and> e < length h') \<and>
                 sortByName rd lc (AnArray (objects h a)) = Inr (objects h' res)))"
proof -
  note v = valid_arrayD[OF assms]
  have frame: "take (length h) h' = h \<and> length h \<le> res \<and> res < length h' \<and>
      (\<forall>e\<in>set (elems h' res). length h \<le> e \<and> e < length h')"
    if "prefix h h'" "length h \<le> res" "valid_array h' res"
      "\<forall>e\<in>set (elems h' res). length h \<le> e" for res h'
    using that valid_arrayD[OF that(3)] by (auto simp: prefix_def)
  note price = sortByPrice_h_array[OF assms, of rd lc]
    and name = sortByName_h_array[OF assms, of rd lc]
  from sortBy_h_sim[OF assms, of rd lc Price]
  obtain out1 where out1: "sortByPrice_h rd lc h (Reference a) = Some out1"
    "case out1 of
       Inl e \<Rightarrow> mergeSort rd lc (objects h a) Price = Inl e
     | Inr (res, h') \<Rightarrow>
         prefix h h' \<and> length h \<le> res \<and> valid_array h' res \<and>
         (\<forall>e\<in>set (elems h' res). length h \<le> e) \<and>
         mergeSort rd lc (objects h a) Price = Inr (objects h' res)"
    unfolding price by blast
  from sortBy_h_sim[OF assms, of rd lc Name]
  obtain out2 where out2: "sortByName_h rd lc h (Reference a) = Some out2"
    "case out2 of
       Inl e \<Rightarrow> mergeSort rd lc (objects h a) Name = Inl e
     | Inr (res, h') \<Rightarrow>
         prefix h h' \<and> length h \<le> res \<and> valid_array h' res \<and>
         (\<forall>e\<in>set (elems h' res). length h \<le> e) \<and>
         mergeSort rd lc (objects h a) Name = Inr (objects h' res)"
    unfolding name by blast
  have first: "\<exists>res h'. sortByPrice_h rd lc h (Reference a) = Some (Inr (res, h')) \<and>
      take (length h) h' = h \<and> length h \<le> res \<and> res < length h' \<and>
      (\<forall>e\<in>set (elems h' res). length h \<le> e \<and> e < length h') \<and>
      sortByPrice rd lc (AnArray (objects h a)) = Inr (objects h' res)"
  proof (cases out1)
    case (Inl e)
    with out1(2) have "mergeSort rd lc (objects h a) Price = Inl e" by simp
    with mergeSort_cases(2)[of rd lc "objects h a" Price e] show ?thesis by simp
  next
    case (Inr p)
    obtain res h' where p: "p = (res, h')" by (cases p)
    from out1(2) Inr p have 1: "prefix h h'" "length h \<le> res" "valid_array h' res"
      "\<forall>e\<in>set (elems h' res). length h \<le> e"
      "mergeSort rd lc (objects h a) Price = Inr (objects h' res)"
      by simp_all
    from frame[OF 1(1-4)] 1(5) out1(1) Inr p show ?thesis
      by (simp add: sortByPrice_mergeSort)
  qed
  have second: "\<exists>out. sortByName_h rd lc h (Reference a) = Some out \<and>
      (case out of
         Inl e \<Rightarrow> sortByName rd lc (AnArray (objects h a)) = Inl e
       | Inr (res, h') \<Rightarrow>
           take (length h) h' = h \<and> length h \<le> res \<and> res < length h' \<and>
           (\<forall>e\<in>set (elems h' res). length h \<le> e \<and> e < length h') \<and>
           sortByName rd lc (AnArray (objects h a)) = Inr (objects h' res))"
  proof (cases out2)
    case (Inl e)
    with out2 show ?thesis by (simp add: sortByName_mergeSort)
  next
    case (Inr p)
    obtain res h' where p: "p = (res, h')" by (cases p)
    from out2(2) Inr p have 1: "prefix h h'" "length h \<le> res" "valid_array h' res"
      "\<forall>e\<in>set (elems h' res). length h \<le> e"
      "mergeSort rd lc (objects h a) Name = Inr (objects h' res)"
      by simp_all
    from frame[OF 1(1-4)] 1(5) out2(1) Inr p show ?thesis
      by (simp add: sortByName_mergeSort)
  qed
  from first second show ?thesis ..
qed

theorem sortBy_h_no_side_effects_witness:
  "valid_array exampleHeap 3 \<and>
   (\<exists>res h'. sortByPrice_h readNothing charCompare exampleHeap (Reference 3) =
        Some (Inr (res, h')) \<and>
      take (length exampleHeap) h' = exampleHeap \<and> length exampleHeap \<le> res \<and>
      res < length h' \<and>
      sortByPrice readNothing charCompare (AnArray (objects exampleHeap 3)) =
        Inr (objects h' res)) \<and>
   map_option (map_sum id (\<lambda>(res, h'). (res, elems h' res, take 4 h', length h')))
     (sortByPrice_h readNothing charCompare exampleHeap (Reference 3)) =
     Some (Inr (13, [5, 6, 4], exampleHeap, 14))"
proof -
  have v: "valid_array exampleHeap 3"
    by (simp add: valid_array_def exampleHeap_def)
  have run: "map_option (map_sum id (\<lambda>(res, h'). (res, elems h' res, take 4 h', length h')))
     (sortByPrice_h readNothing charCompare exampleHeap (Reference 3)) =
     Some (Inr (13, [5, 6, 4], exampleHeap, 14))"
    by code_simp
  from sortBy_h_no_side_effects[OF v, where rd = readNothing and lc = charCompare] v run
  show ?thesis by blast
qed

text \<open>
  Claim C10. \<open>mergeSort\<close> terminates on every array, for either key: on the heap, where a
  function that does not return is \<open>None\<close>, \<open>mergeSort_h\<close> returns on every well-formed
  array, and so does \<open>merge_h\<close>. The recursion is well-founded because for a length of
  at least 2 both halves hold at least one element and both are strictly shorter than
  the array; and every iteration of the first loop of \<open>merge\<close> that does not throw
  leaves strictly fewer unconsumed elements.
\<close>

theorem mergeSort_terminates:
  "(valid_array h items \<longrightarrow> (\<exists>out. mergeSort_h rd lc h items sortBy = Some out)) \<and>
   (valid_array h l \<and> valid_array h r \<longrightarrow> (\<exists>out. merge_h rd lc h l r sortBy = Some out)) \<and>
   (2 \<le> length xs \<longrightarrow>
      1 \<le> length xs div 2 \<and> 1 \<le> length xs - length xs div 2 \<and>
      length (slice 0 (length xs div 2) xs) < length xs \<and>
      length (slice (length xs div 2) (length xs) xs) < length xs) \<and>
   (leftIndex st < length left \<and> rightIndex st < length right \<and>
      merge_body rd lc left right sortBy st = Inr st' \<longrightarrow>
      unconsumed left right st' < unconsumed left right st)"
proof (intro conjI impI)
  assume "valid_array h items"
  from mergeSort_h_sim[OF this, of rd lc sortBy]
  show "\<exists>out. mergeSort_h rd lc h items sortBy = Some out" by blast
next
  assume "valid_array h l \<and> valid_array h r"
  then have "valid_array h l" "valid_array h r" by simp_all
  from merge_h_sim[OF this, of rd lc sortBy]
  show "\<exists>out. merge_h rd lc h l r sortBy = Some out" by blast
next
  assume "2 \<le> length xs"
  then show "1 \<le> length xs div 2" "1 \<le> length xs - length xs div 2"
    "length (slice 0 (length xs div 2) xs) < length xs"
    "length (slice (length xs div 2) (length xs) xs) < length xs"
    by (simp_all add: slice_def)
next
  assume "leftIndex st < length left \<and> rightIndex st < length right \<and>
      merge_body rd lc left right sortBy st = Inr st'"
  then have run: "leftIndex st < length left" "rightIndex st < length right"
    and body: "merge_body rd lc left right sortBy st = Inr st'"
    by simp_all
  from merge_body_cases[OF body] run
  show "unconsumed left right st' < unconsumed left right st"
    by (auto simp: unconsumed_def)
qed

theorem mergeSort_terminates_witness:
  "valid_array exampleHeap 3 \<and>
   (\<exists>out. mergeSort_h readNothing charCompare exampleHeap 3 Name = Some out) \<and>
   (\<exists>out. merge_h readNothing charCompare exampleHeap 3 3 Name = Some out) \<and>
   2 \<le> length defaultProducts \<and>
   length (slice 0 (length defaultProducts div 2) defaultProducts) < length defaultProducts \<and>
   length (slice (length defaultProducts div 2) (length defaultProducts) defaultProducts)
     < length defaultProducts \<and>
   merge_body readNothing charCompare [defaultProducts ! 0] [defaultProducts ! 1] Name
     \<lparr>result = [], leftIndex = 0, rightIndex = 0\<rparr> =
     Inr \<lparr>result = [defaultProducts ! 1], leftIndex = 0, rightIndex = 1\<rparr> \<and>
   unconsumed [defaultProducts ! 0] [defaultProducts ! 1]
     \<lparr>result = [defaultProducts ! 1], leftIndex = 0, rightIndex = 1\<rparr>
     < unconsumed [defaultProducts ! 0] [defaultProducts ! 1]
         \<lparr>result = [], leftIndex = 0, rightIndex = 0\<rparr>"
proof -
  have v: "valid_array exampleHeap 3"
    by (simp add: valid_array_def exampleHeap_def)
  have len: "2 \<le> length defaultProducts"
    by (simp add: defaultProducts_def)
  have body: "merge_body readNothing charCompare [defaultProducts ! 0] [defaultProducts ! 1] Name
     \<lparr>result = [], leftIndex = 0, rightIndex = 0\<rparr> =
     Inr \<lparr>result = [defaultProducts ! 1], leftIndex = 0, rightIndex = 1\<rparr>"
    by code_simp
  from mergeSort_terminates[where h = exampleHeap and items = 3 and l = 3 and r = 3
      and rd = readNothing and lc = charCompare and sortBy = Name and xs = defaultProducts
      and left = "[defaultProducts ! 0]" and right = "[defaultProducts ! 1]"
      and st = "\<lparr>result = [], leftIndex = 0, rightIndex = 0\<rparr>"
      and st' = "\<lparr>result = [defaultProducts ! 1], leftIndex = 0, rightIndex = 1\<rparr>"]
    v len body
  show ?thesis by simp
qed

end
